theory Spec2Isabelle
  imports Main "HOL-Library.Multiset"
begin

section \<open>JavaScript values handled by the validation processor\<close>

text \<open>
  The processor (\<^verbatim>\<open>lib/validation/processor.js\<close>) receives the values that the
  queued validator promises were fulfilled with. They are modelled as JSON-like
  data: \<^verbatim>\<open>undefined\<close>, \<^verbatim>\<open>null\<close>, booleans, numbers, strings, dense arrays and
  plain objects (own data properties, prototype \<^verbatim>\<open>Object.prototype\<close>). A number is
  represented by its canonical rendering (the result of \<^verbatim>\<open>Number::toString\<close>),
  the only thing the processor could ever observe of it. Functions, symbols,
  accessors, sparse arrays and cyclic structures are outside the model.
\<close>

datatype js_error = TypeError

datatype jsval =
    JUndefined
  | JNull
  | JBool bool
  | JNum string
  | JStr string
  | JArr "jsval list"
  | JObj "(string \<times> jsval) list"

text \<open>
  The expression \<^verbatim>\<open>e.field\<close>: reading a property of \<^verbatim>\<open>undefined\<close> or \<^verbatim>\<open>null\<close>
  throws; a primitive or an array has no property of that name; a plain
  object gives its own property, and \<^verbatim>\<open>undefined\<close> when it has none.
\<close>

fun get_field :: "jsval \<Rightarrow> js_error + jsval" where
  "get_field JUndefined = Inl TypeError"
| "get_field JNull = Inl TypeError"
| "get_field (JObj ps) = Inr (case map_of ps ''field'' of None \<Rightarrow> JUndefined | Some v \<Rightarrow> v)"
| "get_field (JBool b) = Inr JUndefined"
| "get_field (JNum n) = Inr JUndefined"
| "get_field (JStr s) = Inr JUndefined"
| "get_field (JArr xs) = Inr JUndefined"

text \<open>\<^verbatim>\<open>Array.prototype.join\<close> with the default separator.\<close>

fun join_strings :: "string list \<Rightarrow> string" where
  "join_strings [] = []"
| "join_strings [s] = s"
| "join_strings (s # t # ss) = s @ '','' @ join_strings (t # ss)"

text \<open>Evaluating a list of computations from left to right; the first throw wins.\<close>

fun all_results :: "(js_error + 'a) list \<Rightarrow> js_error + 'a list" where
  "all_results [] = Inr []"
| "all_results (r # rs) =
     (case r of
        Inl err \<Rightarrow> Inl err
      | Inr x \<Rightarrow> (case all_results rs of Inl err \<Rightarrow> Inl err | Inr xs \<Rightarrow> Inr (x # xs)))"

text \<open>
  \<^verbatim>\<open>ToPropertyKey\<close> of a value of the model, which is \<^verbatim>\<open>ToString\<close> here (there are
  no symbols). An array is joined, with \<^verbatim>\<open>undefined\<close> and \<^verbatim>\<open>null\<close> elements
  rendered empty. A plain object is rendered by \<^verbatim>\<open>Object.prototype.toString\<close>,
  unless it has an own property \<^verbatim>\<open>toString\<close>: no value of the model is callable,
  so \<^verbatim>\<open>OrdinaryToPrimitive\<close> then falls through \<^verbatim>\<open>valueOf\<close> (absent, it returns
  the object itself) and throws.
\<close>

fun to_property_key :: "jsval \<Rightarrow> js_error + string" where
  "to_property_key JUndefined = Inr ''undefined''"
| "to_property_key JNull = Inr ''null''"
| "to_property_key (JBool b) = Inr (if b then ''true'' else ''false'')"
| "to_property_key (JNum n) = Inr n"
| "to_property_key (JStr s) = Inr s"
| "to_property_key (JArr xs) =
     (case all_results
             (map (\<lambda>x. if x = JUndefined \<or> x = JNull then Inr [] else to_property_key x) xs) of
        Inl err \<Rightarrow> Inl err
      | Inr ss \<Rightarrow> Inr (join_strings ss))"
| "to_property_key (JObj ps) =
     (if ''toString'' \<in> set (map fst ps) then Inl TypeError else Inr ''[object Object]'')"

text \<open>The property key under which \<^verbatim>\<open>grouped[e.field]\<close> files the element \<^verbatim>\<open>e\<close>.\<close>

definition record_key :: "jsval \<Rightarrow> js_error + string" where
  "record_key e = (case get_field e of Inl err \<Rightarrow> Inl err | Inr v \<Rightarrow> to_property_key v)"

section \<open>Objects used as mappings\<close>

text \<open>
  An object is its prototype and its own properties in creation order.
  \<^verbatim>\<open>Object.create(null)\<close> has no prototype; an object literal inherits the
  members of \<^verbatim>\<open>Object.prototype\<close>.
\<close>

datatype proto = NullProto | ObjectPrototype

record 'v js_object =
  prototype :: proto
  props :: "(string \<times> 'v) list"

definition object_create_null :: "'v js_object" where
  "object_create_null = \<lparr>prototype = NullProto, props = []\<rparr>"

definition object_prototype_names :: "string list" where
  "object_prototype_names =
     [''constructor'', ''__defineGetter__'', ''__defineSetter__'', ''hasOwnProperty'',
      ''__lookupGetter__'', ''__lookupSetter__'', ''isPrototypeOf'',
      ''propertyIsEnumerable'', ''toString'', ''valueOf'', ''__proto__'',
      ''toLocaleString'']"

text \<open>
  The result of \<^verbatim>\<open>obj[k]\<close>: an own property, a member inherited from
  \<^verbatim>\<open>Object.prototype\<close>, or \<^verbatim>\<open>undefined\<close>.
\<close>

datatype 'v lookup = Own 'v | Inherited | Missing

definition js_get :: "'v js_object \<Rightarrow> string \<Rightarrow> 'v lookup" where
  "js_get obj k =
     (case map_of (props obj) k of
        Some v \<Rightarrow> Own v
      | None \<Rightarrow>
          (case prototype obj of
             NullProto \<Rightarrow> Missing
           | ObjectPrototype \<Rightarrow> if k \<in> set object_prototype_names then Inherited else Missing))"

text \<open>
  Truthiness of a looked-up value: the own properties of the mappings below
  are arrays, which are truthy even when empty; the members of
  \<^verbatim>\<open>Object.prototype\<close> are functions or objects; \<^verbatim>\<open>undefined\<close> is falsy.
\<close>

fun truthy :: "'v lookup \<Rightarrow> bool" where
  "truthy (Own v) = True"
| "truthy Inherited = True"
| "truthy Missing = False"

text \<open>
  Writing an own data property: an existing one keeps its place, a new one is
  created after the others.
\<close>

fun put_prop :: "string \<Rightarrow> 'v \<Rightarrow> (string \<times> 'v) list \<Rightarrow> (string \<times> 'v) list" where
  "put_prop k v [] = [(k, v)]"
| "put_prop k v (p # ps) = (if fst p = k then (k, v) # ps else p # put_prop k v ps)"

definition js_put :: "'v js_object \<Rightarrow> string \<Rightarrow> 'v \<Rightarrow> 'v js_object" where
  "js_put obj k v = obj\<lparr>props := put_prop k v (props obj)\<rparr>"

subsection \<open>Enumeration order of \<^verbatim>\<open>Object.keys\<close>\<close>

text \<open>
  \<^verbatim>\<open>Object.keys\<close> lists the own keys that are array indices (canonical decimal
  numerals up to \<open>2\<^sup>3\<^sup>2 - 2\<close>) first, in ascending numeric order, and then the
  other keys in creation order.
\<close>

definition is_digit :: "char \<Rightarrow> bool" where
  "is_digit c = (48 \<le> (of_char c :: int) \<and> (of_char c :: int) \<le> 57)"

definition index_value :: "string \<Rightarrow> int" where
  "index_value s = foldl (\<lambda>n c. 10 * n + (of_char c - 48)) 0 s"

definition is_array_index :: "string \<Rightarrow> bool" where
  "is_array_index s =
     (s \<noteq> [] \<and> list_all is_digit s \<and> (s = ''0'' \<or> hd s \<noteq> CHR ''0'')
      \<and> index_value s \<le> 4294967294)"

definition key_order :: "string list \<Rightarrow> string list" where
  "key_order ks =
     sort_key index_value (filter is_array_index ks) @ filter (\<lambda>k. \<not> is_array_index k) ks"

definition object_keys :: "'v js_object \<Rightarrow> string list" where
  "object_keys obj = key_order (map fst (props obj))"

section \<open>The processor\<close>

text \<open>\<^verbatim>\<open>Array.prototype.forEach\<close> with a callback that updates a captured variable and may throw.\<close>

fun for_each :: "('s \<Rightarrow> 'a \<Rightarrow> js_error + 's) \<Rightarrow> 's \<Rightarrow> 'a list \<Rightarrow> js_error + 's" where
  "for_each f s [] = Inr s"
| "for_each f s (x # xs) = (case f s x of Inl err \<Rightarrow> Inl err | Inr s' \<Rightarrow> for_each f s' xs)"

text \<open>\<^verbatim>\<open>errors[field][0]\<close>: the first element, \<^verbatim>\<open>undefined\<close> for an empty array.\<close>

fun first_element :: "jsval list \<Rightarrow> jsval" where
  "first_element [] = JUndefined"
| "first_element (x # xs) = x"

text \<open>
  \<^verbatim>\<open>reduceGroupedErrors\<close>: a new null-prototype object receives, for each key of
  \<^verbatim>\<open>Object.keys(errors)\<close> in turn, a new one-element array. Reading
  \<^verbatim>\<open>errors[field][0]\<close> throws when \<^verbatim>\<open>errors[field]\<close> is not an own array.
\<close>

definition reduce_field ::
  "jsval list js_object \<Rightarrow> jsval list js_object \<Rightarrow> string \<Rightarrow> js_error + jsval list js_object"
where
  "reduce_field errors reduced field =
     (case js_get errors field of
        Own arr \<Rightarrow> Inr (js_put reduced field [first_element arr])
      | Inherited \<Rightarrow> Inr (js_put reduced field [JUndefined])
      | Missing \<Rightarrow> Inl TypeError)"

definition reduceGroupedErrors :: "jsval list js_object \<Rightarrow> js_error + jsval list js_object" where
  "reduceGroupedErrors errors =
     for_each (reduce_field errors) object_create_null (object_keys errors)"

text \<open>
  The inner callback of \<^verbatim>\<open>gatherErrors\<close>:
  \<^verbatim>\<open>if (!grouped[e.field]) { grouped[e.field] = []; } grouped[e.field].push(e);\<close>
  An inherited member is truthy and has no \<^verbatim>\<open>push\<close>, so calling it throws.
\<close>

definition group_record ::
  "jsval list js_object \<Rightarrow> jsval \<Rightarrow> js_error + jsval list js_object"
where
  "group_record grouped e =
     (case record_key e of
        Inl err \<Rightarrow> Inl err
      | Inr k \<Rightarrow>
          (let grouped1 = (if \<not> truthy (js_get grouped k) then js_put grouped k [] else grouped)
           in case js_get grouped1 k of
                Own arr \<Rightarrow> Inr (js_put grouped1 k (arr @ [e]))
              | Inherited \<Rightarrow> Inl TypeError
              | Missing \<Rightarrow> Inl TypeError))"

text \<open>The outer callback: only a result that \<^verbatim>\<open>Array.isArray\<close> accepts is looked into.\<close>

fun group_unit :: "jsval list js_object \<Rightarrow> jsval \<Rightarrow> js_error + jsval list js_object" where
  "group_unit grouped (JArr es) = for_each group_record grouped es"
| "group_unit grouped JUndefined = Inr grouped"
| "group_unit grouped JNull = Inr grouped"
| "group_unit grouped (JBool b) = Inr grouped"
| "group_unit grouped (JNum n) = Inr grouped"
| "group_unit grouped (JStr s) = Inr grouped"
| "group_unit grouped (JObj ps) = Inr grouped"

text \<open>
  The outcome of the promise: fulfilled without a value, or rejected with the
  grouped errors. A throw inside \<^verbatim>\<open>gatherErrors\<close> is the \<open>Inl\<close> of the result.
\<close>

datatype outcome = Resolved | Rejected "jsval list js_object"

text \<open>The value of the variable \<^verbatim>\<open>grouped\<close> when \<^verbatim>\<open>gatherErrors\<close> reaches its \<^verbatim>\<open>return\<close>.\<close>

definition grouped_errors :: "bool \<Rightarrow> jsval list \<Rightarrow> js_error + jsval list js_object" where
  "grouped_errors reduce errorsList =
     (case for_each group_unit object_create_null errorsList of
        Inl err \<Rightarrow> Inl err
      | Inr grouped \<Rightarrow> if reduce then reduceGroupedErrors grouped else Inr grouped)"

definition gatherErrors :: "bool \<Rightarrow> jsval list \<Rightarrow> js_error + outcome" where
  "gatherErrors reduce errorsList =
     (case grouped_errors reduce errorsList of
        Inl err \<Rightarrow> Inl err
      | Inr grouped \<Rightarrow>
          if length (object_keys grouped) \<noteq> 0 then Inr (Rejected grouped) else Inr Resolved)"

section \<open>The exported function\<close>

text \<open>
  The single parameter is an object pattern with defaults; a default applies
  where the property (or the whole argument) is \<^verbatim>\<open>undefined\<close>, modelled by
  \<open>None\<close>. \<^verbatim>\<open>waypointId\<close> has no default.
\<close>

record 'v params =
  waypointId :: jsval
  fieldValidators :: "'v js_object option"
  journeyContext :: "jsval option"
  reduceErrors :: "bool option"

text \<open>The object literal \<^verbatim>\<open>{}\<close>.\<close>

definition empty_object :: "'v js_object" where
  "empty_object = \<lparr>prototype = ObjectPrototype, props = []\<rparr>"

definition param_waypointId :: "'v params option \<Rightarrow> jsval" where
  "param_waypointId arg = (case arg of None \<Rightarrow> JUndefined | Some p \<Rightarrow> waypointId p)"

definition param_fieldValidators :: "'v params option \<Rightarrow> 'v js_object" where
  "param_fieldValidators arg =
     (case arg of
        None \<Rightarrow> empty_object
      | Some p \<Rightarrow> (case fieldValidators p of None \<Rightarrow> empty_object | Some fv \<Rightarrow> fv))"

definition param_journeyContext :: "'v params option \<Rightarrow> jsval" where
  "param_journeyContext arg =
     (case arg of
        None \<Rightarrow> JObj []
      | Some p \<Rightarrow> (case journeyContext p of None \<Rightarrow> JObj [] | Some jc \<Rightarrow> jc))"

definition param_reduceErrors :: "'v params option \<Rightarrow> bool" where
  "param_reduceErrors arg =
     (case arg of
        None \<Rightarrow> False
      | Some p \<Rightarrow> (case reduceErrors p of None \<Rightarrow> False | Some r \<Rightarrow> r))"

text \<open>
  \<^verbatim>\<open>queueValidator\<close> lives in \<^verbatim>\<open>processor/queue.js\<close>, which is not part of the
  sources at hand: it is a parameter, a function from the queue and its four
  other arguments to the queue it leaves behind. The type \<open>'u\<close> is that of the
  queued promises.
\<close>

type_synonym ('u, 'v) queue_validator =
  "'u list \<Rightarrow> jsval \<Rightarrow> jsval \<Rightarrow> string \<Rightarrow> 'v lookup \<Rightarrow> 'u list"

definition validatorQueue :: "('u, 'v) queue_validator \<Rightarrow> 'v params option \<Rightarrow> 'u list" where
  "validatorQueue queueValidator arg =
     foldl (\<lambda>queue field.
              queueValidator queue (param_waypointId arg) (param_journeyContext arg) field
                (js_get (param_fieldValidators arg) field))
       [] (object_keys (param_fieldValidators arg))"

text \<open>
  What the function returns: a promise that is already fulfilled, or
  \<^verbatim>\<open>Promise.all(validatorQueue).then(gatherErrors)\<close>, which waits for the queued
  promises.
\<close>

datatype 'u returned = ResolveNow | WhenAllThenGather "'u list" bool

definition processor :: "('u, 'v) queue_validator \<Rightarrow> 'v params option \<Rightarrow> 'u returned" where
  "processor queueValidator arg =
     (let queue = validatorQueue queueValidator arg
      in if length queue \<noteq> 0 then WhenAllThenGather queue (param_reduceErrors arg)
         else ResolveNow)"

text \<open>
  The outcome of the returned promise once every queued promise is fulfilled,
  \<open>fulfilled u\<close> being the value of the promise \<open>u\<close>: \<^verbatim>\<open>Promise.all\<close> hands the
  values over in queue order. (A queued promise that is rejected would reject
  the whole without \<^verbatim>\<open>gatherErrors\<close> being called; the promises of
  \<^verbatim>\<open>queue.js\<close> are taken to be fulfilled.)
\<close>

fun settle :: "('u \<Rightarrow> jsval) \<Rightarrow> 'u returned \<Rightarrow> js_error + outcome" where
  "settle fulfilled ResolveNow = Inr Resolved"
| "settle fulfilled (WhenAllThenGather queue reduce) = gatherErrors reduce (map fulfilled queue)"

section \<open>Notions used to state the properties\<close>

text \<open>The elements a unit result hands to the inner loop, and those of all results in order.\<close>

fun unit_records :: "jsval \<Rightarrow> jsval list" where
  "unit_records (JArr es) = es"
| "unit_records JUndefined = []"
| "unit_records JNull = []"
| "unit_records (JBool b) = []"
| "unit_records (JNum n) = []"
| "unit_records (JStr s) = []"
| "unit_records (JObj ps) = []"

definition all_records :: "jsval list \<Rightarrow> jsval list" where
  "all_records errorsList = concat (map unit_records errorsList)"

text \<open>The keys of the records of a list, in order, and the records filed under a key.\<close>

definition record_keys :: "jsval list \<Rightarrow> string list" where
  "record_keys es = concat (map (\<lambda>e. case record_key e of Inl err \<Rightarrow> [] | Inr k \<Rightarrow> [k]) es)"

definition records_for :: "string \<Rightarrow> jsval list \<Rightarrow> jsval list" where
  "records_for k es = filter (\<lambda>e. record_key e = Inr k) es"

text \<open>The elements of a list in the order of their first occurrence, skipping those seen.\<close>

fun first_seen :: "'a list \<Rightarrow> 'a list \<Rightarrow> 'a list" where
  "first_seen seen [] = []"
| "first_seen seen (k # ks) =
     (if k \<in> set seen then first_seen seen ks else k # first_seen (k # seen) ks)"

text \<open>
  An Error Record as the specification describes it: a plain object whose
  \<^verbatim>\<open>field\<close> is a string, the field it is attributed to. A unit result is well
  formed when it is not an array, or an array of Error Records.
\<close>

fun record_field :: "jsval \<Rightarrow> string option" where
  "record_field (JObj ps) = (case map_of ps ''field'' of Some (JStr s) \<Rightarrow> Some s | _ \<Rightarrow> None)"
| "record_field JUndefined = None"
| "record_field JNull = None"
| "record_field (JBool b) = None"
| "record_field (JNum n) = None"
| "record_field (JStr s) = None"
| "record_field (JArr es) = None"

definition is_error_record :: "jsval \<Rightarrow> bool" where
  "is_error_record e = (record_field e \<noteq> None)"

definition well_formed_unit :: "jsval \<Rightarrow> bool" where
  "well_formed_unit u = list_all is_error_record (unit_records u)"

text \<open>A failing unit: a non-empty list.\<close>

definition failing_unit :: "jsval \<Rightarrow> bool" where
  "failing_unit u = (unit_records u \<noteq> [])"

text \<open>Whether the promise is fulfilled, rejected with a mapping, or rejected by a throw.\<close>

datatype classification = Success | Failure | Thrown

fun classify :: "js_error + outcome \<Rightarrow> classification" where
  "classify (Inl err) = Thrown"
| "classify (Inr Resolved) = Success"
| "classify (Inr (Rejected grouped)) = Failure"

text \<open>What \<^verbatim>\<open>Array.isArray\<close> accepts.\<close>

fun is_array :: "jsval \<Rightarrow> bool" where
  "is_array (JArr es) = True"
| "is_array JUndefined = False"
| "is_array JNull = False"
| "is_array (JBool b) = False"
| "is_array (JNum n) = False"
| "is_array (JStr s) = False"
| "is_array (JObj ps) = False"

text \<open>
  The values that \<^verbatim>\<open>ToPropertyKey\<close> converts without throwing: all but a plain
  object with an own property \<^verbatim>\<open>toString\<close> (which no value of the model makes
  callable) and an array that holds such a value.
\<close>

fun key_convertible :: "jsval \<Rightarrow> bool" where
  "key_convertible (JArr es) = list_all key_convertible es"
| "key_convertible (JObj ps) = (''toString'' \<notin> set (map fst ps))"
| "key_convertible JUndefined = True"
| "key_convertible JNull = True"
| "key_convertible (JBool b) = True"
| "key_convertible (JNum n) = True"
| "key_convertible (JStr s) = True"

text \<open>
  The list elements the inner loop copes with: anything but \<^verbatim>\<open>undefined\<close> and
  \<^verbatim>\<open>null\<close>, provided its \<^verbatim>\<open>field\<close>, if it has one, converts to a property key.
\<close>

fun tolerated :: "jsval \<Rightarrow> bool" where
  "tolerated JUndefined = False"
| "tolerated JNull = False"
| "tolerated (JObj ps) =
     (case map_of ps ''field'' of None \<Rightarrow> True | Some v \<Rightarrow> key_convertible v)"
| "tolerated (JBool b) = True"
| "tolerated (JNum n) = True"
| "tolerated (JStr s) = True"
| "tolerated (JArr es) = True"

text \<open>
  The list filed under a key after more records have been filed: \<open>old\<close> is the
  entry before (if any), \<open>rs\<close> the records with that key met since.
\<close>

definition filed_under :: "jsval list option \<Rightarrow> jsval list \<Rightarrow> jsval list option" where
  "filed_under old rs =
     (case old of None \<Rightarrow> if rs = [] then None else Some rs | Some a \<Rightarrow> Some (a @ rs))"

text \<open>The relation between \<^verbatim>\<open>grouped\<close> before and after the inner loop has run over \<open>es\<close>.\<close>

definition grouping ::
  "jsval list js_object \<Rightarrow> jsval list \<Rightarrow> jsval list js_object \<Rightarrow> bool" where
  "grouping g es g' \<longleftrightarrow>
     prototype g' = NullProto \<and>
     map fst (props g') = map fst (props g) @ first_seen (map fst (props g)) (record_keys es) \<and>
     (\<forall>k. map_of (props g') k = filed_under (map_of (props g) k) (records_for k es))"

text \<open>The same for the loop of \<^verbatim>\<open>reduceGroupedErrors\<close> over the keys \<open>ks\<close>.\<close>

definition reducing ::
  "jsval list js_object \<Rightarrow> jsval list js_object \<Rightarrow> string list \<Rightarrow> jsval list js_object \<Rightarrow> bool"
where
  "reducing errors acc ks out \<longleftrightarrow>
     prototype out = prototype acc \<and>
     map fst (props out) = map fst (props acc) @ first_seen (map fst (props acc)) ks \<and>
     (\<forall>k. map_of (props out) k =
        (if k \<in> set ks then map_option (\<lambda>arr. [first_element arr]) (map_of (props errors) k)
         else map_of (props acc) k))"

text \<open>
  What \<^verbatim>\<open>grouped\<close> holds at the end of \<^verbatim>\<open>gatherErrors\<close>, in terms of the
  records \<open>es\<close> met by the inner loop.
\<close>

definition gathered :: "bool \<Rightarrow> jsval list \<Rightarrow> jsval list js_object \<Rightarrow> bool" where
  "gathered reduce es g \<longleftrightarrow>
     prototype g = NullProto \<and>
     map fst (props g) =
       (if reduce then key_order (first_seen [] (record_keys es))
        else first_seen [] (record_keys es)) \<and>
     (\<forall>k. map_of (props g) k =
        (if records_for k es = [] then None
         else Some (if reduce then [first_element (records_for k es)] else records_for k es)))"

section \<open>\<^verbatim>\<open>reduceGroupedErrors\<close> on a store\<close>

text \<open>
  To tell what \<^verbatim>\<open>reduceGroupedErrors\<close> does to its argument, objects and arrays
  are put in a store and named by references. A reference is an index of the
  store, a new object or array is added at the end, and a reference beyond the
  store, which no JavaScript program can hold, is answered by the error. The
  properties of a mapping refer to arrays; the records in them are values.
\<close>

type_synonym ref = nat

record store =
  objects :: "ref js_object list"
  arrays :: "jsval list list"

definition object_at :: "store \<Rightarrow> ref \<Rightarrow> ref js_object option" where
  "object_at h a = (if a < length (objects h) then Some (objects h ! a) else None)"

definition array_at :: "store \<Rightarrow> ref \<Rightarrow> jsval list option" where
  "array_at h a = (if a < length (arrays h) then Some (arrays h ! a) else None)"

text \<open>Allocation: the new object or array has the reference \<open>length\<close> of its part of the store.\<close>

definition alloc_object :: "store \<Rightarrow> ref js_object \<Rightarrow> store" where
  "alloc_object h obj = h\<lparr>objects := objects h @ [obj]\<rparr>"

definition alloc_array :: "store \<Rightarrow> jsval list \<Rightarrow> store" where
  "alloc_array h arr = h\<lparr>arrays := arrays h @ [arr]\<rparr>"

text \<open>The assignment \<^verbatim>\<open>obj[k] = r\<close> to the object at \<open>a\<close>.\<close>

definition set_prop :: "store \<Rightarrow> ref \<Rightarrow> string \<Rightarrow> ref \<Rightarrow> js_error + store" where
  "set_prop h a k r =
     (if a < length (objects h)
      then Inr (h\<lparr>objects := (objects h)[a := js_put (objects h ! a) k r]\<rparr>)
      else Inl TypeError)"

text \<open>
  The loop body \<^verbatim>\<open>reduced[field] = [errors[field][0]]\<close>: the array literal is a
  new array, and the assignment changes the object \<^verbatim>\<open>reduced\<close> only.
\<close>

definition reduce_field_in :: "ref \<Rightarrow> ref \<Rightarrow> store \<Rightarrow> string \<Rightarrow> js_error + store" where
  "reduce_field_in errors reduced h field =
     (case object_at h errors of
        None \<Rightarrow> Inl TypeError
      | Some eobj \<Rightarrow>
          (case js_get eobj field of
             Own a \<Rightarrow>
               (case array_at h a of
                  None \<Rightarrow> Inl TypeError
                | Some arr \<Rightarrow>
                    set_prop (alloc_array h [first_element arr]) reduced field (length (arrays h)))
           | Inherited \<Rightarrow> set_prop (alloc_array h [JUndefined]) reduced field (length (arrays h))
           | Missing \<Rightarrow> Inl TypeError))"

text \<open>
  The function: \<^verbatim>\<open>reduced\<close> is a new object without prototype, the keys are
  those of \<^verbatim>\<open>errors\<close> when the loop starts, and the result is the reference
  of \<^verbatim>\<open>reduced\<close> with the store left behind.
\<close>

definition reduceGroupedErrors_in :: "store \<Rightarrow> ref \<Rightarrow> js_error + (store \<times> ref)" where
  "reduceGroupedErrors_in h errors =
     (case object_at h errors of
        None \<Rightarrow> Inl TypeError
      | Some eobj \<Rightarrow>
          (case for_each (reduce_field_in errors (length (objects h)))
                  (alloc_object h object_create_null) (object_keys eobj) of
             Inl err \<Rightarrow> Inl err
           | Inr h' \<Rightarrow> Inr (h', length (objects h))))"

text \<open>The mapping that the object at a reference stands for: its arrays read from the store.\<close>

definition mapping_at :: "store \<Rightarrow> ref \<Rightarrow> jsval list js_object" where
  "mapping_at h a =
     \<lparr>prototype = prototype (objects h ! a),
      props = map (\<lambda>(k, r). (k, arrays h ! r)) (props (objects h ! a))\<rparr>"

text \<open>An object of the store all of whose properties refer to arrays of the store.\<close>

definition refs_valid :: "store \<Rightarrow> ref \<Rightarrow> bool" where
  "refs_valid h a \<longleftrightarrow>
     a < length (objects h) \<and> list_all (\<lambda>(k, r). r < length (arrays h)) (props (objects h ! a))"

text \<open>
  A later store \<open>h'\<close> that differs from \<open>h\<close> only in the object at \<open>reduced\<close> and
  in arrays added at the end.
\<close>

definition extends :: "store \<Rightarrow> store \<Rightarrow> ref \<Rightarrow> bool" where
  "extends h h' reduced \<longleftrightarrow>
     length (objects h') = length (objects h) \<and>
     (\<forall>i < length (objects h). i \<noteq> reduced \<longrightarrow> objects h' ! i = objects h ! i) \<and>
     length (arrays h) \<le> length (arrays h') \<and>
     take (length (arrays h)) (arrays h') = arrays h"

section \<open>Loops and property lists\<close>

lemma for_each_append:
  "for_each f s (xs @ ys) = (case for_each f s xs of Inl err \<Rightarrow> Inl err | Inr s' \<Rightarrow> for_each f s' ys)"
  by (induction xs arbitrary: s) (auto split: sum.splits)

lemma group_unit_records: "group_unit g u = for_each group_record g (unit_records u)"
  by (cases u) simp_all

lemma for_each_group_unit:
  "for_each group_unit g xs = for_each group_record g (all_records xs)"
proof (induction xs arbitrary: g)
  case Nil
  show ?case by (simp add: all_records_def)
next
  case (Cons u us)
  have "all_records (u # us) = unit_records u @ all_records us"
    by (simp add: all_records_def)
  then show ?case
    using Cons.IH by (simp add: for_each_append group_unit_records split: sum.splits)
qed

lemma map_of_put_prop: "map_of (put_prop k v ps) = (map_of ps)(k \<mapsto> v)"
  by (induction ps) (auto simp: fun_eq_iff)

lemma keys_put_prop:
  "map fst (put_prop k v ps) = (if k \<in> set (map fst ps) then map fst ps else map fst ps @ [k])"
  by (induction ps) auto

lemma js_error_is_TypeError: "(err :: js_error) = TypeError"
  by (cases err) simp

lemma group_record_null:
  assumes "prototype g = NullProto" and "record_key e = Inr k"
  shows "\<exists>g1. group_record g e = Inr g1 \<and> prototype g1 = NullProto \<and>
     map fst (props g1) = map fst (props g) @ (if k \<in> set (map fst (props g)) then [] else [k]) \<and>
     map_of (props g1) =
       (map_of (props g))(k \<mapsto> (case map_of (props g) k of None \<Rightarrow> [] | Some a \<Rightarrow> a) @ [e])"
proof (cases "map_of (props g) k")
  case None
  then have "k \<notin> set (map fst (props g))"
    by (simp add: map_of_eq_None_iff)
  with None assms show ?thesis
    by (simp add: group_record_def js_get_def js_put_def map_of_put_prop keys_put_prop)
next
  case (Some a)
  then have "k \<in> set (map fst (props g))"
    by (metis map_of_eq_None_iff option.distinct(1) set_map)
  with Some assms show ?thesis
    by (simp add: group_record_def js_get_def js_put_def map_of_put_prop keys_put_prop)
qed

lemma group_record_throws: "record_key e = Inl err \<Longrightarrow> group_record g e = Inl err"
  by (simp add: group_record_def)


lemma first_seen_cong: "set a = set b \<Longrightarrow> first_seen a ks = first_seen b ks"
proof (induction ks arbitrary: a b)
  case Nil
  show ?case by simp
next
  case (Cons k ks)
  have mem: "k \<in> set a \<longleftrightarrow> k \<in> set b"
    by (simp only: Cons.prems)
  have "set (k # a) = set (k # b)"
    by (simp only: list.set Cons.prems)
  then have "first_seen (k # a) ks = first_seen (k # b) ks"
    by (rule Cons.IH)
  moreover have "first_seen a ks = first_seen b ks"
    using Cons.prems by (rule Cons.IH)
  ultimately show ?case
    by (simp only: first_seen.simps mem)
qed


lemma record_keys_Cons:
  "record_keys (e # es) = (case record_key e of Inl err \<Rightarrow> [] | Inr k \<Rightarrow> [k]) @ record_keys es"
  by (simp add: record_keys_def)

lemma for_each_group_record_throws:
  assumes "prototype g = NullProto" and "\<exists>e\<in>set es. record_key e = Inl TypeError"
  shows "for_each group_record g es = Inl TypeError"
  using assms
proof (induction es arbitrary: g)
  case Nil
  then show ?case by simp
next
  case (Cons e es)
  show ?case
  proof (cases "record_key e")
    case (Inl err)
    then show ?thesis
      by (simp add: group_record_throws js_error_is_TypeError [of err])
  next
    case (Inr k)
    from group_record_null [OF Cons.prems(1) Inr] obtain g1
      where g1: "group_record g e = Inr g1" "prototype g1 = NullProto"
      by (elim exE conjE)
    from Inr Cons.prems have "\<exists>e\<in>set es. record_key e = Inl TypeError" by auto
    with g1 Cons.IH show ?thesis by simp
  qed
qed

lemma filed_under_step:
  "filed_under (Some ((case old of None \<Rightarrow> [] | Some a \<Rightarrow> a) @ [e])) rs = filed_under old (e # rs)"
  by (simp add: filed_under_def split: option.splits)

lemma for_each_group_record_ok:
  assumes "prototype g = NullProto" and "\<forall>e\<in>set es. record_key e \<noteq> Inl TypeError"
  shows "\<exists>g'. for_each group_record g es = Inr g' \<and> grouping g es g'"
  using assms
proof (induction es arbitrary: g)
  case Nil
  then show ?case
    by (simp add: grouping_def record_keys_def records_for_def filed_under_def split: option.splits)
next
  case (Cons e es)
  from Cons.prems obtain k where k: "record_key e = Inr k"
    by (cases "record_key e") (auto simp: js_error_is_TypeError)
  from group_record_null [OF Cons.prems(1) k] obtain g1 where
    G1: "group_record g e = Inr g1 \<and> prototype g1 = NullProto \<and>
     map fst (props g1) = map fst (props g) @ (if k \<in> set (map fst (props g)) then [] else [k]) \<and>
     map_of (props g1) =
       (map_of (props g))(k \<mapsto> (case map_of (props g) k of None \<Rightarrow> [] | Some a \<Rightarrow> a) @ [e])" ..
  then have g1: "group_record g e = Inr g1" "prototype g1 = NullProto"
      "map fst (props g1) = map fst (props g) @ (if k \<in> set (map fst (props g)) then [] else [k])"
      "map_of (props g1) =
        (map_of (props g))(k \<mapsto> (case map_of (props g) k of None \<Rightarrow> [] | Some a \<Rightarrow> a) @ [e])"
    by simp_all
  from Cons.prems have "\<forall>e\<in>set es. record_key e \<noteq> Inl TypeError" by simp
  from Cons.IH [OF g1(2) this] obtain g' where
    G': "for_each group_record g1 es = Inr g' \<and> grouping g1 es g'" ..
  then have g': "for_each group_record g1 es = Inr g'" "prototype g' = NullProto"
      "map fst (props g') = map fst (props g1) @ first_seen (map fst (props g1)) (record_keys es)"
      "\<And>j. map_of (props g') j = filed_under (map_of (props g1) j) (records_for j es)"
    by (simp_all add: grouping_def)
  have order: "map fst (props g') =
      map fst (props g) @ first_seen (map fst (props g)) (record_keys (e # es))"
  proof (cases "k \<in> set (map fst (props g))")
    case True
    with g1(3) g'(3) k show ?thesis by (simp add: record_keys_Cons)
  next
    case False
    have "first_seen (map fst (props g) @ [k]) (record_keys es)
        = first_seen (k # map fst (props g)) (record_keys es)"
      by (rule first_seen_cong) auto
    with False g1(3) g'(3) k show ?thesis by (simp add: record_keys_Cons)
  qed
  have vals: "map_of (props g') j = filed_under (map_of (props g) j) (records_for j (e # es))" for j
  proof (cases "j = k")
    case True
    have "records_for k (e # es) = e # records_for k es"
      using k by (simp add: records_for_def)
    moreover have "map_of (props g1) k =
        Some ((case map_of (props g) k of None \<Rightarrow> [] | Some a \<Rightarrow> a) @ [e])"
      by (simp add: g1(4))
    ultimately show ?thesis
      using g'(4) [of k] True by (simp add: filed_under_step)
  next
    case False
    have "records_for j (e # es) = records_for j es"
      using k False by (simp add: records_for_def)
    moreover have "map_of (props g1) j = map_of (props g) j"
      using False by (simp add: g1(4))
    ultimately show ?thesis
      using g'(4) [of j] by simp
  qed
  have "grouping g (e # es) g'"
    unfolding grouping_def using g'(2) order vals by blast
  moreover have "for_each group_record g (e # es) = Inr g'"
    using g1(1) g'(1) by simp
  ultimately show ?case by blast
qed

lemma set_first_seen: "set (first_seen seen ks) = set ks - set seen"
  by (induction ks arbitrary: seen) auto

lemma distinct_first_seen: "distinct (first_seen seen ks)"
  by (induction ks arbitrary: seen) (auto simp: set_first_seen)

lemma first_seen_distinct:
  "distinct ks \<Longrightarrow> set ks \<inter> set seen = {} \<Longrightarrow> first_seen seen ks = ks"
  by (induction ks arbitrary: seen) auto

lemma set_key_order: "set (key_order ks) = set ks"
  by (auto simp: key_order_def)

lemma distinct_key_order: "distinct ks \<Longrightarrow> distinct (key_order ks)"
  by (auto simp: key_order_def)

lemma length_key_order: "length (key_order ks) = length ks"
proof -
  have "length (filter is_array_index ks) + length (filter (\<lambda>k. \<not> is_array_index k) ks) = length ks"
    by (rule sum_length_filter_compl)
  then show ?thesis by (simp add: key_order_def)
qed

lemma key_order_Nil_iff: "key_order ks = [] \<longleftrightarrow> ks = []"
  using length_key_order [of ks] by (metis length_0_conv)

lemma key_order_no_index:
  assumes "\<forall>k\<in>set ks. \<not> is_array_index k"
  shows "key_order ks = ks"
proof -
  from assms have "filter is_array_index ks = []" by (simp add: filter_empty_conv)
  moreover from assms have "filter (\<lambda>k. \<not> is_array_index k) ks = ks" by (simp add: filter_id_conv)
  ultimately show ?thesis by (simp add: key_order_def)
qed

lemma key_order_idem: "key_order (key_order ks) = key_order ks"
proof -
  let ?ix = "sort_key index_value (filter is_array_index ks)"
  let ?rest = "filter (\<lambda>k. \<not> is_array_index k) ks"
  have a: "filter is_array_index (key_order ks) = ?ix"
    by (simp add: key_order_def filter_sort)
  have b: "filter (\<lambda>k. \<not> is_array_index k) (key_order ks) = ?rest"
    by (simp add: key_order_def filter_sort)
  have c: "sort_key index_value ?ix = ?ix"
    by (rule sort_key_id_if_sorted) simp
  show ?thesis
    unfolding key_order_def [of "key_order ks"] a b c by (simp add: key_order_def)
qed

lemma object_create_null_simps:
  "prototype (object_create_null :: 'v js_object) = NullProto"
  "props (object_create_null :: 'v js_object) = []"
  by (simp_all add: object_create_null_def)

lemma loop_throws:
  assumes "\<exists>e\<in>set (all_records xs). record_key e = Inl TypeError"
  shows "for_each group_unit object_create_null xs = Inl TypeError"
  using assms
  by (simp only: for_each_group_unit)
     (rule for_each_group_record_throws, simp add: object_create_null_simps)

lemma loop_ok:
  assumes "\<forall>e\<in>set (all_records xs). record_key e \<noteq> Inl TypeError"
  shows "\<exists>g. for_each group_unit object_create_null xs = Inr g
           \<and> grouping object_create_null (all_records xs) g"
  using assms
  by (simp only: for_each_group_unit)
     (rule for_each_group_record_ok, simp add: object_create_null_simps)


lemma reduce_field_own:
  assumes "map_of (props errors) k = Some arr"
  shows "reduce_field errors acc k = Inr (js_put acc k [first_element arr])"
  using assms by (simp add: reduce_field_def js_get_def)

lemma reduce_loop:
  assumes "set ks \<subseteq> set (map fst (props errors))"
  shows "\<exists>out. for_each (reduce_field errors) acc ks = Inr out \<and> reducing errors acc ks out"
  using assms
proof (induction ks arbitrary: acc)
  case Nil
  show ?case by (simp add: reducing_def)
next
  case (Cons k ks)
  from Cons.prems have "k \<in> set (map fst (props errors))" by simp
  then obtain arr where arr: "map_of (props errors) k = Some arr"
    by (metis map_of_eq_None_iff not_None_eq set_map)
  define acc1 where "acc1 = js_put acc k [first_element arr]"
  have step: "reduce_field errors acc k = Inr acc1"
    unfolding acc1_def using arr by (rule reduce_field_own)
  have p1: "prototype acc1 = prototype acc"
    by (simp add: acc1_def js_put_def)
  have k1: "map fst (props acc1) =
      (if k \<in> set (map fst (props acc)) then map fst (props acc) else map fst (props acc) @ [k])"
    by (simp add: acc1_def js_put_def keys_put_prop)
  have m1: "map_of (props acc1) = (map_of (props acc))(k \<mapsto> [first_element arr])"
    by (simp add: acc1_def js_put_def map_of_put_prop)
  from Cons.prems have "set ks \<subseteq> set (map fst (props errors))" by simp
  from Cons.IH [OF this, of acc1] obtain out where
    O: "for_each (reduce_field errors) acc1 ks = Inr out \<and> reducing errors acc1 ks out" ..
  then have out: "for_each (reduce_field errors) acc1 ks = Inr out"
      "prototype out = prototype acc1"
      "map fst (props out) = map fst (props acc1) @ first_seen (map fst (props acc1)) ks"
      "\<And>j. map_of (props out) j =
        (if j \<in> set ks then map_option (\<lambda>arr. [first_element arr]) (map_of (props errors) j)
         else map_of (props acc1) j)"
    by (simp_all add: reducing_def)
  have order: "map fst (props out) = map fst (props acc) @ first_seen (map fst (props acc)) (k # ks)"
  proof (cases "k \<in> set (map fst (props acc))")
    case True
    with k1 out(3) show ?thesis by simp
  next
    case False
    have "first_seen (map fst (props acc) @ [k]) ks = first_seen (k # map fst (props acc)) ks"
      by (rule first_seen_cong) auto
    with False k1 out(3) show ?thesis by simp
  qed
  have vals: "map_of (props out) j =
        (if j \<in> set (k # ks) then map_option (\<lambda>arr. [first_element arr]) (map_of (props errors) j)
         else map_of (props acc) j)" for j
    using out(4) [of j] m1 arr by simp
  have "reducing errors acc (k # ks) out"
    unfolding reducing_def using out(2) p1 order vals by simp
  moreover have "for_each (reduce_field errors) acc (k # ks) = Inr out"
    using step out(1) by simp
  ultimately show ?case by blast
qed

lemma reduceGroupedErrors_result:
  assumes "distinct (map fst (props errors))"
  shows "\<exists>out. reduceGroupedErrors errors = Inr out \<and> prototype out = NullProto \<and>
     map fst (props out) = object_keys errors \<and>
     (\<forall>k. map_of (props out) k = map_option (\<lambda>arr. [first_element arr]) (map_of (props errors) k))"
proof -
  have sub: "set (object_keys errors) \<subseteq> set (map fst (props errors))"
    by (simp add: object_keys_def set_key_order)
  from reduce_loop [OF sub, of object_create_null] obtain out where
    O: "for_each (reduce_field errors) object_create_null (object_keys errors) = Inr out
        \<and> reducing errors object_create_null (object_keys errors) out" ..
  have d: "distinct (object_keys errors)"
    using assms by (simp add: object_keys_def distinct_key_order)
  have fs: "first_seen [] (object_keys errors) = object_keys errors"
    using d by (simp add: first_seen_distinct)
  have vals: "map_of (props out) k =
      map_option (\<lambda>arr. [first_element arr]) (map_of (props errors) k)" for k
  proof (cases "k \<in> set (object_keys errors)")
    case True
    with O show ?thesis by (simp add: reducing_def)
  next
    case False
    then have "map_of (props errors) k = None"
      by (simp add: object_keys_def set_key_order map_of_eq_None_iff)
    with False O show ?thesis by (simp add: reducing_def object_create_null_simps)
  qed
  from O have "reduceGroupedErrors errors = Inr out"
    by (simp add: reduceGroupedErrors_def)
  moreover from O have "prototype out = NullProto"
    by (simp add: reducing_def object_create_null_simps)
  moreover from O fs have "map fst (props out) = object_keys errors"
    by (simp add: reducing_def object_create_null_simps)
  ultimately show ?thesis using vals by blast
qed

section \<open>What \<^verbatim>\<open>gatherErrors\<close> computes\<close>

lemma records_for_Nil_iff: "records_for k es = [] \<longleftrightarrow> k \<notin> set (record_keys es)"
  by (induction es) (auto simp: records_for_def record_keys_def split: sum.splits)

lemma record_keys_Nil_iff:
  assumes "\<forall>e\<in>set es. record_key e \<noteq> Inl TypeError"
  shows "record_keys es = [] \<longleftrightarrow> es = []"
proof (cases es)
  case Nil
  then show ?thesis by (simp add: record_keys_def)
next
  case (Cons e es')
  with assms obtain k where "record_key e = Inr k"
    by (cases "record_key e") (auto simp: js_error_is_TypeError)
  with Cons show ?thesis by (simp add: record_keys_Cons)
qed

lemma first_seen_Nil_iff: "first_seen [] ks = [] \<longleftrightarrow> ks = []"
  by (cases ks) simp_all

lemma grouped_errors_throws:
  assumes "\<exists>e\<in>set (all_records xs). record_key e = Inl TypeError"
  shows "grouped_errors r xs = Inl TypeError"
  using loop_throws [OF assms] by (simp add: grouped_errors_def)

lemma grouped_errors_ok:
  assumes "\<forall>e\<in>set (all_records xs). record_key e \<noteq> Inl TypeError"
  shows "\<exists>g. grouped_errors r xs = Inr g \<and> gathered r (all_records xs) g"
proof -
  let ?es = "all_records xs"
  from loop_ok [OF assms] obtain g where
    G: "for_each group_unit object_create_null xs = Inr g \<and> grouping object_create_null ?es g" ..
  then have g: "for_each group_unit object_create_null xs = Inr g"
      "prototype g = NullProto"
      "map fst (props g) = first_seen [] (record_keys ?es)"
      "\<And>k. map_of (props g) k = filed_under None (records_for k ?es)"
    by (simp_all add: grouping_def object_create_null_simps)
  show ?thesis
  proof (cases r)
    case False
    have "gathered False ?es g"
      unfolding gathered_def using g(2,3,4) by (simp add: filed_under_def)
    with g(1) False show ?thesis by (simp add: grouped_errors_def)
  next
    case True
    have "distinct (map fst (props g))"
      by (simp add: g(3) distinct_first_seen)
    from reduceGroupedErrors_result [OF this] obtain out where
      O: "reduceGroupedErrors g = Inr out \<and> prototype out = NullProto \<and>
          map fst (props out) = object_keys g \<and>
          (\<forall>k. map_of (props out) k = map_option (\<lambda>arr. [first_element arr]) (map_of (props g) k))" ..
    then have out: "reduceGroupedErrors g = Inr out" "prototype out = NullProto"
        "map fst (props out) = object_keys g"
        "\<And>k. map_of (props out) k = map_option (\<lambda>arr. [first_element arr]) (map_of (props g) k)"
      by simp_all
    have "gathered True ?es out"
      unfolding gathered_def using out(2,3,4) g(3,4)
      by (simp add: filed_under_def object_keys_def)
    with g(1) out(1) True show ?thesis by (simp add: grouped_errors_def)
  qed
qed

lemma gathered_keys:
  assumes "gathered r es g"
  shows "object_keys g = key_order (first_seen [] (record_keys es))"
  using assms by (cases r) (simp_all add: gathered_def object_keys_def key_order_idem)

lemma gathered_key_set:
  assumes "gathered r es g"
  shows "set (object_keys g) = set (record_keys es)"
  by (simp add: gathered_keys [OF assms] set_key_order set_first_seen)

lemma gathered_get:
  assumes "gathered r es g"
  shows "js_get g k =
    (if records_for k es = [] then Missing
     else Own (if r then [first_element (records_for k es)] else records_for k es))"
  using assms by (simp add: gathered_def js_get_def)

lemma gatherErrors_throws:
  assumes "\<exists>e\<in>set (all_records xs). record_key e = Inl TypeError"
  shows "gatherErrors r xs = Inl TypeError"
  using grouped_errors_throws [OF assms] by (simp add: gatherErrors_def)

lemma gatherErrors_ok:
  assumes "\<forall>e\<in>set (all_records xs). record_key e \<noteq> Inl TypeError"
  shows "if all_records xs = [] then gatherErrors r xs = Inr Resolved
         else \<exists>g. gatherErrors r xs = Inr (Rejected g) \<and> grouped_errors r xs = Inr g
                \<and> gathered r (all_records xs) g"
proof -
  from grouped_errors_ok [OF assms] obtain g where
    G: "grouped_errors r xs = Inr g \<and> gathered r (all_records xs) g" ..
  then have "gathered r (all_records xs) g" ..
  then have keys: "object_keys g = key_order (first_seen [] (record_keys (all_records xs)))"
    by (rule gathered_keys)
  have "object_keys g = [] \<longleftrightarrow> all_records xs = []"
    by (simp add: keys key_order_Nil_iff first_seen_Nil_iff record_keys_Nil_iff [OF assms])
  with G show ?thesis by (auto simp: gatherErrors_def)
qed

text \<open>The definitions a run on a concrete input unfolds.\<close>

lemmas run_defs =
  gatherErrors_def grouped_errors_def reduceGroupedErrors_def reduce_field_def
  group_record_def record_key_def js_get_def js_put_def object_create_null_def
  object_keys_def key_order_def is_array_index_def is_digit_def index_value_def
  all_records_def record_keys_def records_for_def

lemma grouped_errors_Inr:
  assumes "grouped_errors r xs = Inr g"
  shows "gathered r (all_records xs) g"
    and "\<forall>e\<in>set (all_records xs). record_key e \<noteq> Inl TypeError"
proof -
  show ok: "\<forall>e\<in>set (all_records xs). record_key e \<noteq> Inl TypeError"
  proof (rule ccontr)
    assume "\<not> ?thesis"
    then have "\<exists>e\<in>set (all_records xs). record_key e = Inl TypeError" by simp
    from grouped_errors_throws [OF this, of r] assms show False by simp
  qed
  from grouped_errors_ok [OF ok, of r] assms show "gathered r (all_records xs) g" by auto
qed

lemma gatherErrors_Rejected:
  assumes "gatherErrors r xs = Inr (Rejected g)"
  shows "grouped_errors r xs = Inr g"
  using assms by (simp add: gatherErrors_def split: sum.splits if_splits)

lemma set_record_keys: "set (record_keys es) = {k. \<exists>e\<in>set es. record_key e = Inr k}"
  by (induction es) (auto simp: record_keys_def split: sum.splits)

lemma find_first_element:
  "filter P es \<noteq> [] \<Longrightarrow> find P es = Some (first_element (filter P es))"
  by (induction es) auto

lemma set_all_records: "set (all_records xs) = (\<Union>u\<in>set xs. set (unit_records u))"
  by (simp add: all_records_def)

lemma classify_gatherErrors:
  "classify (gatherErrors r xs) =
     (if \<exists>e\<in>set (all_records xs). record_key e = Inl TypeError then Thrown
      else if set (all_records xs) = {} then Success else Failure)"
proof (cases "\<exists>e\<in>set (all_records xs). record_key e = Inl TypeError")
  case True
  then show ?thesis by (simp add: gatherErrors_throws)
next
  case False
  then have "\<forall>e\<in>set (all_records xs). record_key e \<noteq> Inl TypeError" by simp
  from gatherErrors_ok [OF this, of r] False show ?thesis by auto
qed

section \<open>Records, tolerance and the exported function\<close>

lemma record_field_key: "record_field e = Some s \<Longrightarrow> record_key e = Inr s"
  by (cases e) (auto simp: record_key_def split: option.splits jsval.splits)

lemma all_results_Inr_iff:
  "(\<exists>ys. all_results rs = Inr ys) \<longleftrightarrow> (\<forall>r\<in>set rs. \<exists>y. r = Inr y)"
  by (induction rs) (auto split: sum.splits)

lemma key_convertible_iff: "(\<exists>k. to_property_key v = Inr k) \<longleftrightarrow> key_convertible v"
proof (induction v)
  case (JArr es)
  let ?rs = "map (\<lambda>x. if x = JUndefined \<or> x = JNull then Inr [] else to_property_key x) es"
  have "(\<exists>k. to_property_key (JArr es) = Inr k) \<longleftrightarrow> (\<exists>ys. all_results ?rs = Inr ys)"
    by (auto split: sum.splits)
  also have "\<dots> \<longleftrightarrow> (\<forall>r\<in>set ?rs. \<exists>y. r = Inr y)"
    by (rule all_results_Inr_iff)
  also have "\<dots> \<longleftrightarrow> (\<forall>x\<in>set es. key_convertible x)"
  proof -
    have one: "(\<exists>y. (if x = JUndefined \<or> x = JNull then Inr [] else to_property_key x) = Inr y)
        \<longleftrightarrow> key_convertible x" if "x \<in> set es" for x
      using JArr.IH [OF that] by auto
    have "(\<forall>r\<in>set ?rs. \<exists>y. r = Inr y) \<longleftrightarrow>
        (\<forall>x\<in>set es. \<exists>y. (if x = JUndefined \<or> x = JNull then Inr [] else to_property_key x) = Inr y)"
      unfolding set_map by blast
    also have "\<dots> \<longleftrightarrow> (\<forall>x\<in>set es. key_convertible x)"
      using one by blast
    finally show ?thesis .
  qed
  finally show ?case by (simp add: list_all_iff)
qed simp_all

lemma tolerated_iff: "tolerated e \<longleftrightarrow> record_key e \<noteq> Inl TypeError"
proof -
  have conv: "to_property_key v \<noteq> Inl TypeError \<longleftrightarrow> key_convertible v" for v
    using key_convertible_iff [of v]
    by (cases "to_property_key v") (auto simp: js_error_is_TypeError)
  show ?thesis
  proof (cases e)
    case (JObj ps)
    then show ?thesis
      by (cases "map_of ps ''field''") (simp_all add: record_key_def conv)
  qed (simp_all add: record_key_def)
qed

lemma lacking_field_key: "map_of ps ''field'' = None \<Longrightarrow> record_key (JObj ps) = Inr ''undefined''"
  by (simp add: record_key_def)

lemma gatherErrors_cong:
  assumes "all_records xs = all_records ys"
  shows "gatherErrors r xs = gatherErrors r ys"
  using assms by (simp add: gatherErrors_def grouped_errors_def for_each_group_unit)

lemma not_array_no_records: "\<not> is_array u \<Longrightarrow> unit_records u = []"
  by (cases u) simp_all

lemma all_records_skip:
  "unit_records u = [] \<Longrightarrow> all_records (xs @ u # ys) = all_records (xs @ ys)"
  by (simp add: all_records_def)

lemma gatherErrors_Nil: "gatherErrors r [] = Inr Resolved"
  by (cases r) (simp_all add: run_defs)

lemma gatherErrors_Inr_no_throw:
  assumes "gatherErrors r xs = Inr out"
  shows "\<forall>e\<in>set (all_records xs). record_key e \<noteq> Inl TypeError"
proof (rule ccontr)
  assume "\<not> ?thesis"
  then have "\<exists>e\<in>set (all_records xs). record_key e = Inl TypeError" by simp
  from gatherErrors_throws [OF this, of r] assms show False by simp
qed

lemma settle_processor:
  "settle fulfilled (processor qv arg)
     = gatherErrors (param_reduceErrors arg) (map fulfilled (validatorQueue qv arg))"
  by (cases "validatorQueue qv arg") (simp_all add: processor_def gatherErrors_Nil)

lemma gatherErrors_well_formed:
  assumes "\<forall>u\<in>set xs. well_formed_unit u"
  shows "if \<exists>u\<in>set xs. failing_unit u
         then \<exists>g. gatherErrors r xs = Inr (Rejected g)
                \<and> set (object_keys g) = {s. \<exists>e\<in>set (all_records xs). record_field e = Some s}
         else gatherErrors r xs = Inr Resolved"
proof -
  have rec: "\<exists>s. record_field e = Some s" if "e \<in> set (all_records xs)" for e
    using that assms
    by (auto simp: set_all_records well_formed_unit_def list_all_iff is_error_record_def)
  have key: "record_key e = Inr s \<longleftrightarrow> record_field e = Some s"
    if "e \<in> set (all_records xs)" for e s
    using rec [OF that] record_field_key [of e] by auto
  have ok: "\<forall>e\<in>set (all_records xs). record_key e \<noteq> Inl TypeError"
    using rec record_field_key by fastforce
  have fail: "(\<exists>u\<in>set xs. failing_unit u) \<longleftrightarrow> all_records xs \<noteq> []"
    by (auto simp: failing_unit_def all_records_def)
  show ?thesis
  proof (cases "all_records xs = []")
    case True
    with gatherErrors_ok [OF ok, of r] fail show ?thesis by simp
  next
    case False
    with gatherErrors_ok [OF ok, of r] obtain g where
      g: "gatherErrors r xs = Inr (Rejected g)" "gathered r (all_records xs) g"
      by auto
    have "set (object_keys g) = {s. \<exists>e\<in>set (all_records xs). record_key e = Inr s}"
      by (simp add: gathered_key_set [OF g(2)] set_record_keys)
    also have "\<dots> = {s. \<exists>e\<in>set (all_records xs). record_field e = Some s}"
      using key by auto
    finally show ?thesis using g(1) False fail by auto
  qed
qed

section \<open>The store and the mappings read from it\<close>

lemma map_put_prop:
  "map (\<lambda>(k, r). (k, f r)) (put_prop k v ps) = put_prop k (f v) (map (\<lambda>(k, r). (k, f r)) ps)"
  by (induction ps) auto

lemma js_get_mapping_at:
  "js_get (mapping_at h a) k =
     (case js_get (objects h ! a) k of
        Own r \<Rightarrow> Own (arrays h ! r) | Inherited \<Rightarrow> Inherited | Missing \<Rightarrow> Missing)"
  by (simp add: js_get_def mapping_at_def map_of_map split: option.splits proto.splits)

lemma keys_mapping_at: "map fst (props (mapping_at h a)) = map fst (props (objects h ! a))"
  by (simp add: mapping_at_def comp_def case_prod_unfold)

lemma extends_refl: "extends h h reduced"
  by (simp add: extends_def)

lemma extends_trans:
  assumes "extends h1 h2 reduced" and "extends h2 h3 reduced"
  shows "extends h1 h3 reduced"
proof -
  from assms have len: "length (arrays h1) \<le> length (arrays h2)"
    and t12: "take (length (arrays h1)) (arrays h2) = arrays h1"
    and t23: "take (length (arrays h2)) (arrays h3) = arrays h2"
    by (simp_all add: extends_def)
  have "take (length (arrays h1)) (arrays h3)
      = take (length (arrays h1)) (take (length (arrays h2)) (arrays h3))"
    using len by (simp add: min_def)
  also have "\<dots> = arrays h1" by (simp only: t23 t12)
  finally have "take (length (arrays h1)) (arrays h3) = arrays h1" .
  with assms show ?thesis by (simp add: extends_def)
qed

lemma mapping_at_cong:
  assumes "objects h' ! a = objects h ! a"
    and "list_all (\<lambda>(k, r). r < length (arrays h)) (props (objects h ! a))"
    and "take (length (arrays h)) (arrays h') = arrays h"
  shows "mapping_at h' a = mapping_at h a"
proof -
  have nth: "arrays h' ! r = arrays h ! r" if "r < length (arrays h)" for r
  proof -
    have "arrays h ! r = take (length (arrays h)) (arrays h') ! r"
      by (simp only: assms(3))
    also have "\<dots> = arrays h' ! r" using that by simp
    finally show ?thesis by simp
  qed
  have "map (\<lambda>(k, r). (k, arrays h' ! r)) (props (objects h ! a))
      = map (\<lambda>(k, r). (k, arrays h ! r)) (props (objects h ! a))"
    using assms(2) nth by (auto simp: list_all_iff)
  with assms(1) show ?thesis by (simp add: mapping_at_def)
qed

lemma reduce_field_in_step:
  assumes e: "refs_valid h errors" and r: "refs_valid h reduced" and ne: "errors \<noteq> reduced"
    and k: "k \<in> set (map fst (props (objects h ! errors)))"
  shows "\<exists>h'. reduce_field_in errors reduced h k = Inr h' \<and> extends h h' reduced
           \<and> refs_valid h' errors \<and> refs_valid h' reduced
           \<and> objects h' ! errors = objects h ! errors
           \<and> mapping_at h' errors = mapping_at h errors
           \<and> reduce_field (mapping_at h errors) (mapping_at h reduced) k
               = Inr (mapping_at h' reduced)"
proof -
  from k obtain a where a: "map_of (props (objects h ! errors)) k = Some a"
    by (metis map_of_eq_None_iff not_None_eq set_map)
  then have "(k, a) \<in> set (props (objects h ! errors))" by (rule map_of_SomeD)
  with e have av: "a < length (arrays h)"
    by (auto simp: refs_valid_def list_all_iff)
  from e r have el: "errors < length (objects h)" and rl: "reduced < length (objects h)"
    by (simp_all add: refs_valid_def)
  define n where "n = length (arrays h)"
  define x where "x = first_element (arrays h ! a)"
  define h' where "h' = h\<lparr>arrays := arrays h @ [[x]],
      objects := (objects h)[reduced := js_put (objects h ! reduced) k n]\<rparr>"
  have step: "reduce_field_in errors reduced h k = Inr h'"
    using a av el rl
    by (simp add: reduce_field_in_def object_at_def array_at_def js_get_def set_prop_def
          alloc_array_def h'_def n_def x_def)
  have arr': "arrays h' = arrays h @ [[x]]" by (simp add: h'_def)
  have obj': "objects h' = (objects h)[reduced := js_put (objects h ! reduced) k n]"
    by (simp add: h'_def)
  have ext: "extends h h' reduced"
    by (simp add: extends_def arr' obj')
  have same: "objects h' ! errors = objects h ! errors"
    using ne by (simp add: obj')
  have ev': "refs_valid h' errors"
    using e same by (auto simp: refs_valid_def arr' obj' list_all_iff)
  have red': "objects h' ! reduced = js_put (objects h ! reduced) k n"
    using rl by (simp add: obj')
  have "set (put_prop k n ps) \<subseteq> insert (k, n) (set ps)" for ps :: "(string \<times> nat) list"
    by (induction ps) auto
  then have rv': "refs_valid h' reduced"
    using r rl unfolding refs_valid_def list_all_iff red' js_put_def arr' obj'
    by (fastforce simp: n_def)
  have me: "mapping_at h' errors = mapping_at h errors"
    using same e by (intro mapping_at_cong) (simp_all add: refs_valid_def arr')
  have old: "map (\<lambda>(k, r). (k, arrays h' ! r)) (props (objects h ! reduced))
      = map (\<lambda>(k, r). (k, arrays h ! r)) (props (objects h ! reduced))"
    using r by (auto simp: refs_valid_def list_all_iff arr' nth_append)
  have new: "arrays h' ! n = [x]"
    by (simp add: arr' n_def)
  have mr: "mapping_at h' reduced = js_put (mapping_at h reduced) k [x]"
    by (simp add: mapping_at_def red' js_put_def map_put_prop old new)
  have "js_get (objects h ! errors) k = Own a"
    using a by (simp add: js_get_def)
  then have "js_get (mapping_at h errors) k = Own (arrays h ! a)"
    by (simp add: js_get_mapping_at)
  then have pure: "reduce_field (mapping_at h errors) (mapping_at h reduced) k
      = Inr (mapping_at h' reduced)"
    by (simp add: reduce_field_def mr x_def)
  from step ext ev' rv' same me pure show ?thesis by blast
qed


lemma reduce_loop_in:
  assumes "refs_valid h errors" and "refs_valid h reduced" and "errors \<noteq> reduced"
    and "set ks \<subseteq> set (map fst (props (objects h ! errors)))"
  shows "\<exists>h'. for_each (reduce_field_in errors reduced) h ks = Inr h' \<and> extends h h' reduced
           \<and> objects h' ! errors = objects h ! errors
           \<and> mapping_at h' errors = mapping_at h errors
           \<and> for_each (reduce_field (mapping_at h errors)) (mapping_at h reduced) ks
               = Inr (mapping_at h' reduced)"
  using assms
proof (induction ks arbitrary: h)
  case Nil
  show ?case by (simp add: extends_refl)
next
  case (Cons k ks)
  from Cons.prems(4) have k: "k \<in> set (map fst (props (objects h ! errors)))" by simp
  from reduce_field_in_step [OF Cons.prems(1) Cons.prems(2) Cons.prems(3) k] obtain h1 where
    H1: "reduce_field_in errors reduced h k = Inr h1 \<and> extends h h1 reduced
           \<and> refs_valid h1 errors \<and> refs_valid h1 reduced
           \<and> objects h1 ! errors = objects h ! errors
           \<and> mapping_at h1 errors = mapping_at h errors
           \<and> reduce_field (mapping_at h errors) (mapping_at h reduced) k
               = Inr (mapping_at h1 reduced)" ..
  then have h1: "reduce_field_in errors reduced h k = Inr h1" "extends h h1 reduced"
      "refs_valid h1 errors" "refs_valid h1 reduced"
      "objects h1 ! errors = objects h ! errors"
      "mapping_at h1 errors = mapping_at h errors"
      "reduce_field (mapping_at h errors) (mapping_at h reduced) k = Inr (mapping_at h1 reduced)"
    by simp_all
  from Cons.prems(4) h1(5) have "set ks \<subseteq> set (map fst (props (objects h1 ! errors)))"
    by simp
  from Cons.IH [OF h1(3) h1(4) Cons.prems(3) this] obtain h2 where
    H2: "for_each (reduce_field_in errors reduced) h1 ks = Inr h2 \<and> extends h1 h2 reduced
           \<and> objects h2 ! errors = objects h1 ! errors
           \<and> mapping_at h2 errors = mapping_at h1 errors
           \<and> for_each (reduce_field (mapping_at h1 errors)) (mapping_at h1 reduced) ks
               = Inr (mapping_at h2 reduced)" ..
  then have h2: "for_each (reduce_field_in errors reduced) h1 ks = Inr h2"
      "extends h1 h2 reduced"
      "objects h2 ! errors = objects h1 ! errors"
      "mapping_at h2 errors = mapping_at h1 errors"
      "for_each (reduce_field (mapping_at h1 errors)) (mapping_at h1 reduced) ks
               = Inr (mapping_at h2 reduced)"
    by simp_all
  have a: "for_each (reduce_field_in errors reduced) h (k # ks) = Inr h2"
    using h1(1) h2(1) by simp
  have b: "extends h h2 reduced"
    using h1(2) h2(2) by (rule extends_trans)
  have c: "objects h2 ! errors = objects h ! errors"
    using h1(5) h2(3) by simp
  have d: "mapping_at h2 errors = mapping_at h errors"
    using h1(6) h2(4) by simp
  have e: "for_each (reduce_field (mapping_at h errors)) (mapping_at h reduced) (k # ks)
      = Inr (mapping_at h2 reduced)"
    using h1(7) h2(5) h1(6) by simp
  from a b c d e show ?case by blast
qed

lemma first_element_hd: "arr \<noteq> [] \<Longrightarrow> first_element arr = hd arr"
  by (cases arr) simp_all

lemma reduceGroupedErrors_in_result:
  assumes v: "refs_valid h errors"
  shows "\<exists>h'. reduceGroupedErrors_in h errors = Inr (h', length (objects h))
           \<and> take (length (objects h)) (objects h') = objects h
           \<and> take (length (arrays h)) (arrays h') = arrays h
           \<and> mapping_at h' errors = mapping_at h errors
           \<and> reduceGroupedErrors (mapping_at h errors) = Inr (mapping_at h' (length (objects h)))"
proof -
  define n where "n = length (objects h)"
  define h0 where "h0 = alloc_object h (object_create_null :: ref js_object)"
  from v have el: "errors < n" by (simp add: refs_valid_def n_def)
  have o0: "objects h0 = objects h @ [object_create_null]" and a0: "arrays h0 = arrays h"
    by (simp_all add: h0_def alloc_object_def)
  have same0: "objects h0 ! errors = objects h ! errors"
    using el by (simp add: o0 nth_append n_def)
  have new0: "objects h0 ! n = object_create_null"
    by (simp add: o0 n_def)
  have v0: "refs_valid h0 errors"
    using v same0 by (simp add: refs_valid_def o0 a0)
  have r0: "refs_valid h0 n"
    by (simp add: refs_valid_def new0 object_create_null_simps) (simp add: o0 n_def)
  have ne: "errors \<noteq> n" using el by simp
  have sub: "set (object_keys (objects h ! errors)) \<subseteq> set (map fst (props (objects h0 ! errors)))"
    by (simp add: same0 object_keys_def set_key_order)
  from reduce_loop_in [OF v0 r0 ne sub] obtain h' where
    H: "for_each (reduce_field_in errors n) h0 (object_keys (objects h ! errors)) = Inr h'
           \<and> extends h0 h' n
           \<and> objects h' ! errors = objects h0 ! errors
           \<and> mapping_at h' errors = mapping_at h0 errors
           \<and> for_each (reduce_field (mapping_at h0 errors)) (mapping_at h0 n)
                (object_keys (objects h ! errors))
               = Inr (mapping_at h' n)" ..
  then have h': "for_each (reduce_field_in errors n) h0 (object_keys (objects h ! errors)) = Inr h'"
      "extends h0 h' n"
      "mapping_at h' errors = mapping_at h0 errors"
      "for_each (reduce_field (mapping_at h0 errors)) (mapping_at h0 n)
                (object_keys (objects h ! errors)) = Inr (mapping_at h' n)"
    by simp_all
  have m0: "mapping_at h0 errors = mapping_at h errors"
    by (simp add: mapping_at_def same0 a0)
  have mn: "mapping_at h0 n = object_create_null"
    by (simp add: mapping_at_def new0 object_create_null_def)
  have keys: "object_keys (mapping_at h errors) = object_keys (objects h ! errors)"
    by (simp add: object_keys_def keys_mapping_at)
  have run: "reduceGroupedErrors_in h errors = Inr (h', n)"
    using el h'(1) by (simp add: reduceGroupedErrors_in_def object_at_def n_def h0_def)
  have len: "length (objects h') = Suc n"
    using h'(2) by (simp add: extends_def o0 n_def)
  have "take n (objects h') = objects h"
  proof (rule nth_equalityI)
    show "length (take n (objects h')) = length (objects h)"
      using len by (simp add: n_def)
  next
    fix i assume "i < length (take n (objects h'))"
    then have i: "i < n" by simp
    then have "objects h' ! i = objects h0 ! i"
      using h'(2) by (simp add: extends_def o0 n_def)
    with i show "take n (objects h') ! i = objects h ! i"
      by (simp add: o0 nth_append n_def)
  qed
  moreover have "take (length (arrays h)) (arrays h') = arrays h"
    using h'(2) by (simp add: extends_def a0)
  moreover have "mapping_at h' errors = mapping_at h errors"
    using h'(3) m0 by simp
  moreover have "reduceGroupedErrors (mapping_at h errors) = Inr (mapping_at h' n)"
    using h'(4) by (simp add: reduceGroupedErrors_def m0 mn keys)
  ultimately show ?thesis using run unfolding n_def by blast
qed

section \<open>Properties of the specification\<close>

text \<open>
  C8. Whether the promise is fulfilled or rejected does not depend on the order
  in which the unit results are processed: two lists of unit results that are
  permutations of each other are classified alike (fulfilled, rejected with a
  mapping, or rejected by a throw).
\<close>

theorem classification_order_independent:
  assumes "mset xs = mset ys"
  shows "classify (gatherErrors r xs) = classify (gatherErrors r ys)"
proof -
  from assms have "set xs = set ys" by (rule mset_eq_setD)
  then have "set (all_records xs) = set (all_records ys)"
    by (simp only: set_all_records)
  then show ?thesis by (simp only: classify_gatherErrors)
qed

theorem classification_order_independent_witness:
  "mset [JArr [JObj [(''field'', JStr ''name'')]], JUndefined] = mset [JUndefined, JArr [JObj [(''field'', JStr ''name'')]]]
   \<and> classify (gatherErrors False [JArr [JObj [(''field'', JStr ''name'')]], JUndefined]) = Failure
   \<and> classify (gatherErrors False [JUndefined, JArr [JObj [(''field'', JStr ''name'')]]]) = Failure"
proof -
  have h: "mset [JArr [JObj [(''field'', JStr ''name'')]], JUndefined]
         = mset [JUndefined, JArr [JObj [(''field'', JStr ''name'')]]]"
    by simp
  have "classify (gatherErrors False [JArr [JObj [(''field'', JStr ''name'')]], JUndefined]) = Failure"
    by (simp add: run_defs)
  with h classification_order_independent [OF h, of False] show ?thesis by simp
qed

text \<open>
  C7. In the mapping that aggregation produces, with or without reduction, a
  field name is a key if and only if at least one record was grouped under it,
  and every key holds a non-empty list.
\<close>

theorem error_mapping_invariant:
  assumes "grouped_errors r xs = Inr g"
  shows "(k \<in> set (object_keys g) \<longleftrightarrow> (\<exists>e\<in>set (all_records xs). record_key e = Inr k))
       \<and> (k \<in> set (object_keys g) \<longleftrightarrow> (\<exists>arr. js_get g k = Own arr))
       \<and> (\<forall>arr. js_get g k = Own arr \<longrightarrow> arr \<noteq> [])"
proof -
  from assms have G: "gathered r (all_records xs) g" by (rule grouped_errors_Inr)
  have keys: "set (object_keys g) = set (record_keys (all_records xs))"
    using G by (rule gathered_key_set)
  have a: "k \<in> set (object_keys g) \<longleftrightarrow> (\<exists>e\<in>set (all_records xs). record_key e = Inr k)"
    by (simp add: keys set_record_keys)
  have get: "js_get g k =
    (if records_for k (all_records xs) = [] then Missing
     else Own (if r then [first_element (records_for k (all_records xs))]
               else records_for k (all_records xs)))"
    using G by (rule gathered_get)
  have b: "k \<in> set (object_keys g) \<longleftrightarrow> (\<exists>arr. js_get g k = Own arr)"
    by (simp add: keys get records_for_Nil_iff)
  have c: "\<forall>arr. js_get g k = Own arr \<longrightarrow> arr \<noteq> []"
    by (auto simp: get split: if_splits)
  from a b c show ?thesis by blast
qed

theorem error_mapping_invariant_witness:
  "grouped_errors False [JArr [JObj [(''field'', JStr ''age''), (''type'', JStr ''required'')]]]
     = Inr \<lparr>prototype = NullProto,
            props = [(''age'', [JObj [(''field'', JStr ''age''), (''type'', JStr ''required'')]])]\<rparr>
   \<and> ''age'' \<in> set (object_keys \<lparr>prototype = NullProto,
            props = [(''age'', [JObj [(''field'', JStr ''age''), (''type'', JStr ''required'')]])]\<rparr>)
   \<and> (\<exists>e\<in>set (all_records [JArr [JObj [(''field'', JStr ''age''), (''type'', JStr ''required'')]]]).
          record_key e = Inr ''age'')
   \<and> (\<exists>arr. js_get \<lparr>prototype = NullProto,
            props = [(''age'', [JObj [(''field'', JStr ''age''), (''type'', JStr ''required'')]])]\<rparr>
          ''age'' = Own arr)"
proof -
  have h: "grouped_errors False [JArr [JObj [(''field'', JStr ''age''), (''type'', JStr ''required'')]]]
     = Inr \<lparr>prototype = NullProto,
            props = [(''age'', [JObj [(''field'', JStr ''age''), (''type'', JStr ''required'')]])]\<rparr>"
    by (simp add: run_defs)
  have "''age'' \<in> set (object_keys \<lparr>prototype = NullProto,
            props = [(''age'', [JObj [(''field'', JStr ''age''), (''type'', JStr ''required'')]])]\<rparr>)"
    by (simp add: run_defs)
  with h error_mapping_invariant [OF h, of "''age''"] show ?thesis by blast
qed

text \<open>
  C2. With \<^verbatim>\<open>reduceErrors\<close> set, every field of the rejection payload holds a
  list of exactly one record, the first record of that field among the
  records of all unit results taken in dispatch order.
\<close>

theorem reduction_keeps_first_record:
  assumes "gatherErrors True xs = Inr (Rejected g)" and "k \<in> set (object_keys g)"
  shows "\<exists>e. find (\<lambda>e. record_key e = Inr k) (all_records xs) = Some e \<and> js_get g k = Own [e]"
proof -
  from assms(1) have "grouped_errors True xs = Inr g" by (rule gatherErrors_Rejected)
  then have G: "gathered True (all_records xs) g" by (rule grouped_errors_Inr)
  from assms(2) have ne: "records_for k (all_records xs) \<noteq> []"
    by (simp add: gathered_key_set [OF G] records_for_Nil_iff)
  then have "find (\<lambda>e. record_key e = Inr k) (all_records xs)
      = Some (first_element (records_for k (all_records xs)))"
    unfolding records_for_def by (rule find_first_element)
  moreover have "js_get g k = Own [first_element (records_for k (all_records xs))]"
    using ne by (simp add: gathered_get [OF G])
  ultimately show ?thesis by blast
qed

theorem reduction_keeps_first_record_witness:
  "gatherErrors True
      [JArr [JObj [(''field'', JStr ''age''), (''type'', JStr ''required'')],
             JObj [(''field'', JStr ''age''), (''type'', JStr ''numeric'')]]]
     = Inr (Rejected \<lparr>prototype = NullProto,
            props = [(''age'', [JObj [(''field'', JStr ''age''), (''type'', JStr ''required'')]])]\<rparr>)
   \<and> ''age'' \<in> set (object_keys \<lparr>prototype = NullProto,
            props = [(''age'', [JObj [(''field'', JStr ''age''), (''type'', JStr ''required'')]])]\<rparr>)
   \<and> (\<exists>e. find (\<lambda>e. record_key e = Inr ''age'')
              (all_records
                [JArr [JObj [(''field'', JStr ''age''), (''type'', JStr ''required'')],
                       JObj [(''field'', JStr ''age''), (''type'', JStr ''numeric'')]]]) = Some e
          \<and> js_get \<lparr>prototype = NullProto,
            props = [(''age'', [JObj [(''field'', JStr ''age''), (''type'', JStr ''required'')]])]\<rparr>
              ''age'' = Own [e])"
proof -
  have h: "gatherErrors True
      [JArr [JObj [(''field'', JStr ''age''), (''type'', JStr ''required'')],
             JObj [(''field'', JStr ''age''), (''type'', JStr ''numeric'')]]]
     = Inr (Rejected \<lparr>prototype = NullProto,
            props = [(''age'', [JObj [(''field'', JStr ''age''), (''type'', JStr ''required'')]])]\<rparr>)"
    by (simp add: run_defs)
  have k: "''age'' \<in> set (object_keys \<lparr>prototype = NullProto,
            props = [(''age'', [JObj [(''field'', JStr ''age''), (''type'', JStr ''required'')]])]\<rparr>)"
    by (simp add: run_defs)
  from h k reduction_keeps_first_record [OF h k] show ?thesis by blast
qed

text \<open>
  C6, as amended. The keys of the rejection payload are enumerated with the
  field names that are array indices first, in ascending numeric order, and
  then the other field names in the order in which the first record of each
  is met when the unit results are processed in dispatch order. When no field
  name is an array index, this is the order of first encounter. The order is
  the same with and without reduction.
\<close>

theorem key_enumeration_order:
  assumes "gatherErrors r xs = Inr (Rejected g)"
  shows "object_keys g = key_order (first_seen [] (record_keys (all_records xs)))
       \<and> ((\<forall>k\<in>set (record_keys (all_records xs)). \<not> is_array_index k) \<longrightarrow>
            object_keys g = first_seen [] (record_keys (all_records xs)))"
proof -
  from assms have "grouped_errors r xs = Inr g" by (rule gatherErrors_Rejected)
  then have G: "gathered r (all_records xs) g" by (rule grouped_errors_Inr)
  then have keys: "object_keys g = key_order (first_seen [] (record_keys (all_records xs)))"
    by (rule gathered_keys)
  have "key_order (first_seen [] (record_keys (all_records xs)))
      = first_seen [] (record_keys (all_records xs))"
    if "\<forall>k\<in>set (record_keys (all_records xs)). \<not> is_array_index k"
    by (rule key_order_no_index) (use that in \<open>simp add: set_first_seen\<close>)
  with keys show ?thesis by simp
qed

theorem key_enumeration_order_witness:
  "gatherErrors True
      [JArr [JObj [(''field'', JStr ''name'')]], JUndefined, JArr [JObj [(''field'', JStr ''age'')]]]
     = Inr (Rejected \<lparr>prototype = NullProto,
            props = [(''name'', [JObj [(''field'', JStr ''name'')]]),
                     (''age'', [JObj [(''field'', JStr ''age'')]])]\<rparr>)
   \<and> object_keys \<lparr>prototype = NullProto,
            props = [(''name'', [JObj [(''field'', JStr ''name'')]]),
                     (''age'', [JObj [(''field'', JStr ''age'')]])]\<rparr>
     = first_seen [] (record_keys (all_records
        [JArr [JObj [(''field'', JStr ''name'')]], JUndefined, JArr [JObj [(''field'', JStr ''age'')]]]))"
proof -
  have h: "gatherErrors True
      [JArr [JObj [(''field'', JStr ''name'')]], JUndefined, JArr [JObj [(''field'', JStr ''age'')]]]
     = Inr (Rejected \<lparr>prototype = NullProto,
            props = [(''name'', [JObj [(''field'', JStr ''name'')]]),
                     (''age'', [JObj [(''field'', JStr ''age'')]])]\<rparr>)"
    by (simp add: run_defs)
  have n: "\<forall>k\<in>set (record_keys (all_records
        [JArr [JObj [(''field'', JStr ''name'')]], JUndefined, JArr [JObj [(''field'', JStr ''age'')]]])).
        \<not> is_array_index k"
    by (simp add: run_defs)
  from h n key_enumeration_order [OF h] show ?thesis by blast
qed

text \<open>
  C6 as stated fails: the field \<^verbatim>\<open>b\<close> is met before the field \<^verbatim>\<open>1\<close>, and the
  payload lists \<^verbatim>\<open>1\<close> first, with reduction (where the reduced object is even
  built in that order) and without.
\<close>

theorem key_order_counterexample:
  "first_seen [] (record_keys (all_records
      [JArr [JObj [(''field'', JStr ''b'')]], JArr [JObj [(''field'', JStr ''1'')]]]))
     = [''b'', ''1'']
   \<and> gatherErrors True [JArr [JObj [(''field'', JStr ''b'')]], JArr [JObj [(''field'', JStr ''1'')]]]
     = Inr (Rejected \<lparr>prototype = NullProto,
            props = [(''1'', [JObj [(''field'', JStr ''1'')]]),
                     (''b'', [JObj [(''field'', JStr ''b'')]])]\<rparr>)
   \<and> object_keys \<lparr>prototype = NullProto,
            props = [(''1'', [JObj [(''field'', JStr ''1'')]]),
                     (''b'', [JObj [(''field'', JStr ''b'')]])]\<rparr> = [''1'', ''b'']
   \<and> gatherErrors False [JArr [JObj [(''field'', JStr ''b'')]], JArr [JObj [(''field'', JStr ''1'')]]]
     = Inr (Rejected \<lparr>prototype = NullProto,
            props = [(''b'', [JObj [(''field'', JStr ''b'')]]),
                     (''1'', [JObj [(''field'', JStr ''1'')]])]\<rparr>)
   \<and> object_keys \<lparr>prototype = NullProto,
            props = [(''b'', [JObj [(''field'', JStr ''b'')]]),
                     (''1'', [JObj [(''field'', JStr ''1'')]])]\<rparr> = [''1'', ''b'']"
  by (simp add: run_defs)

text \<open>
  C1. When no unit result is a failing unit, the returned promise is
  fulfilled. When at least one is, the unit results being well formed (each
  one not a list, or a list of Error Records), the promise is rejected with a
  mapping whose keys are exactly the fields of the Error Records produced.
\<close>

theorem outcome_by_failing_units:
  assumes "\<forall>u\<in>set (map fulfilled (validatorQueue qv arg)). well_formed_unit u"
  shows "if \<exists>u\<in>set (map fulfilled (validatorQueue qv arg)). failing_unit u
         then \<exists>g. settle fulfilled (processor qv arg) = Inr (Rejected g)
                \<and> set (object_keys g) =
                    {s. \<exists>e\<in>set (all_records (map fulfilled (validatorQueue qv arg))).
                          record_field e = Some s}
         else settle fulfilled (processor qv arg) = Inr Resolved"
  unfolding settle_processor using assms by (rule gatherErrors_well_formed)

theorem outcome_by_failing_units_witness:
  "settle (\<lambda>u. if u = ''name'' then JArr [JObj [(''field'', JStr ''name''), (''type'', JStr ''required'')]]
                else JUndefined)
     (processor (\<lambda>queue w c field v. queue @ [field])
        (Some \<lparr>waypointId = JStr ''details'',
               fieldValidators = Some \<lparr>prototype = ObjectPrototype,
                                        props = [(''name'', True), (''age'', True)]\<rparr>,
               journeyContext = None, reduceErrors = None\<rparr>))
   = Inr (Rejected \<lparr>prototype = NullProto,
            props = [(''name'', [JObj [(''field'', JStr ''name''), (''type'', JStr ''required'')]])]\<rparr>)
   \<and> set (object_keys \<lparr>prototype = NullProto,
            props = [(''name'', [JObj [(''field'', JStr ''name''), (''type'', JStr ''required'')]])]\<rparr>)
     = {s. \<exists>e\<in>set (all_records (map
             (\<lambda>u. if u = ''name'' then JArr [JObj [(''field'', JStr ''name''), (''type'', JStr ''required'')]]
                else JUndefined)
             (validatorQueue (\<lambda>queue w c field v. queue @ [field])
        (Some \<lparr>waypointId = JStr ''details'',
               fieldValidators = Some \<lparr>prototype = ObjectPrototype,
                                        props = [(''name'', True), (''age'', True)]\<rparr>,
               journeyContext = None, reduceErrors = None\<rparr>)))).
          record_field e = Some s}"
proof -
  let ?f = "\<lambda>u. if u = ''name'' then JArr [JObj [(''field'', JStr ''name''), (''type'', JStr ''required'')]]
                else JUndefined"
  let ?qv = "\<lambda>(queue :: string list) (w :: jsval) (c :: jsval) (field :: string) (v :: bool lookup).
                queue @ [field]"
  let ?arg = "Some \<lparr>waypointId = JStr ''details'',
               fieldValidators = Some \<lparr>prototype = ObjectPrototype,
                                        props = [(''name'', True), (''age'', True)]\<rparr>,
               journeyContext = None, reduceErrors = None\<rparr>"
  have q: "validatorQueue ?qv ?arg = [''name'', ''age'']"
    by (simp add: validatorQueue_def param_fieldValidators_def run_defs)
  have wf: "\<forall>u\<in>set (map ?f (validatorQueue ?qv ?arg)). well_formed_unit u"
    by (simp add: q well_formed_unit_def is_error_record_def)
  have fl: "\<exists>u\<in>set (map ?f (validatorQueue ?qv ?arg)). failing_unit u"
    by (simp add: q failing_unit_def)
  have run: "settle ?f (processor ?qv ?arg)
     = Inr (Rejected \<lparr>prototype = NullProto,
            props = [(''name'', [JObj [(''field'', JStr ''name''), (''type'', JStr ''required'')]])]\<rparr>)"
    by (simp add: processor_def q param_reduceErrors_def run_defs)
  from outcome_by_failing_units [OF wf] fl run show ?thesis by auto
qed

text \<open>
  C5. With no field validators (the argument omitted, the option omitted, or
  an object without keys), \<^verbatim>\<open>queueValidator\<close> is never called, nothing is queued
  and the function returns an already fulfilled promise: the outcome does not
  involve any queued promise.
\<close>

theorem no_validators_resolve_now:
  "validatorQueue qv None = []
   \<and> processor qv None = ResolveNow
   \<and> validatorQueue qv (Some (p\<lparr>fieldValidators := None\<rparr>)) = []
   \<and> processor qv (Some (p\<lparr>fieldValidators := None\<rparr>)) = ResolveNow
   \<and> validatorQueue qv (Some (p\<lparr>fieldValidators := Some \<lparr>prototype = pr, props = []\<rparr>\<rparr>)) = []
   \<and> processor qv (Some (p\<lparr>fieldValidators := Some \<lparr>prototype = pr, props = []\<rparr>\<rparr>)) = ResolveNow
   \<and> settle fulfilled (processor qv None) = Inr Resolved
   \<and> settle fulfilled (processor qv (Some (p\<lparr>fieldValidators := None\<rparr>))) = Inr Resolved
   \<and> settle fulfilled
        (processor qv (Some (p\<lparr>fieldValidators := Some \<lparr>prototype = pr, props = []\<rparr>\<rparr>)))
       = Inr Resolved"
  by (simp add: processor_def validatorQueue_def param_fieldValidators_def empty_object_def
        object_keys_def key_order_def)

text \<open>
  C3, as amended. A unit result that is not a list contributes nothing. A
  record that is a plain object without a \<^verbatim>\<open>field\<close> is not dropped: it is filed
  under the key \<^verbatim>\<open>undefined\<close>, so that the promise is rejected and the payload
  has an entry of that name (which holds the record when there is no
  reduction). Aggregation does not throw when every list element is a plain
  object whose \<^verbatim>\<open>field\<close> is absent or a string.
\<close>

theorem malformed_results_grouping:
  "(\<not> is_array u \<longrightarrow> gatherErrors r (xs @ u # ys) = gatherErrors r (xs @ ys))
   \<and> (map_of ps ''field'' = None \<and> JObj ps \<in> set (all_records zs)
        \<and> gatherErrors r zs = Inr out \<longrightarrow>
       (\<exists>g arr. out = Rejected g \<and> js_get g ''undefined'' = Own arr
                \<and> (\<not> r \<longrightarrow> JObj ps \<in> set arr)))
   \<and> ((\<forall>e\<in>set (all_records ws).
          \<exists>qs. e = JObj qs \<and> (map_of qs ''field'' = None \<or> is_error_record e)) \<longrightarrow>
       (\<exists>out'. gatherErrors r ws = Inr out'))"
proof (intro conjI impI)
  assume "\<not> is_array u"
  then have "all_records (xs @ u # ys) = all_records (xs @ ys)"
    by (simp add: not_array_no_records all_records_skip)
  then show "gatherErrors r (xs @ u # ys) = gatherErrors r (xs @ ys)"
    by (rule gatherErrors_cong)
next
  assume a: "map_of ps ''field'' = None \<and> JObj ps \<in> set (all_records zs)
        \<and> gatherErrors r zs = Inr out"
  then have key: "record_key (JObj ps) = Inr ''undefined''"
    by (simp add: lacking_field_key)
  from a have ok: "\<forall>e\<in>set (all_records zs). record_key e \<noteq> Inl TypeError"
    using gatherErrors_Inr_no_throw by blast
  from a have ne: "all_records zs \<noteq> []" by auto
  with gatherErrors_ok [OF ok, of r] obtain g where
    g: "gatherErrors r zs = Inr (Rejected g)" "gathered r (all_records zs) g"
    by auto
  from a key have mem: "JObj ps \<in> set (records_for ''undefined'' (all_records zs))"
    by (simp add: records_for_def)
  then have "records_for ''undefined'' (all_records zs) \<noteq> []" by auto
  with gathered_get [OF g(2), of "''undefined''"] have
    "js_get g ''undefined'' =
       Own (if r then [first_element (records_for ''undefined'' (all_records zs))]
            else records_for ''undefined'' (all_records zs))"
    by simp
  with mem a g(1) show "\<exists>g arr. out = Rejected g \<and> js_get g ''undefined'' = Own arr
                \<and> (\<not> r \<longrightarrow> JObj ps \<in> set arr)"
    by auto
next
  assume b: "\<forall>e\<in>set (all_records ws).
          \<exists>qs. e = JObj qs \<and> (map_of qs ''field'' = None \<or> is_error_record e)"
  have "record_key e \<noteq> Inl TypeError" if "e \<in> set (all_records ws)" for e
  proof -
    from b that obtain qs where
      e: "e = JObj qs" "map_of qs ''field'' = None \<or> is_error_record e" by blast
    from e(2) show ?thesis
    proof
      assume "map_of qs ''field'' = None"
      with e(1) show ?thesis by (simp add: lacking_field_key)
    next
      assume "is_error_record e"
      then obtain s where "record_field e = Some s"
        by (auto simp: is_error_record_def)
      then show ?thesis by (simp add: record_field_key)
    qed
  qed
  then have "\<forall>e\<in>set (all_records ws). record_key e \<noteq> Inl TypeError" by blast
  from gatherErrors_ok [OF this, of r] show "\<exists>out'. gatherErrors r ws = Inr out'"
    by (auto split: if_splits)
qed

theorem malformed_results_grouping_witness:
  "gatherErrors False ([JArr [JObj [(''field'', JStr ''name'')]]] @ JStr ''oops'' # [JNull])
     = gatherErrors False ([JArr [JObj [(''field'', JStr ''name'')]]] @ [JNull])
   \<and> gatherErrors False [JArr [JObj [(''type'', JStr ''required'')]]]
     = Inr (Rejected \<lparr>prototype = NullProto,
              props = [(''undefined'', [JObj [(''type'', JStr ''required'')]])]\<rparr>)
   \<and> (\<exists>g arr. Rejected \<lparr>prototype = NullProto,
              props = [(''undefined'', [JObj [(''type'', JStr ''required'')]])]\<rparr> = Rejected g
          \<and> js_get g ''undefined'' = Own arr \<and> JObj [(''type'', JStr ''required'')] \<in> set arr)
   \<and> (\<exists>out'. gatherErrors False
          [JArr [JObj [(''type'', JStr ''required'')], JObj [(''field'', JStr ''name'')]]] = Inr out')"
proof -
  have a: "\<not> is_array (JStr ''oops'')" by simp
  have run: "gatherErrors False [JArr [JObj [(''type'', JStr ''required'')]]]
     = Inr (Rejected \<lparr>prototype = NullProto,
              props = [(''undefined'', [JObj [(''type'', JStr ''required'')]])]\<rparr>)"
    by (simp add: run_defs)
  have b: "map_of [(''type'', JStr ''required'')] ''field'' = None
      \<and> JObj [(''type'', JStr ''required'')]
          \<in> set (all_records [JArr [JObj [(''type'', JStr ''required'')]]])
      \<and> gatherErrors False [JArr [JObj [(''type'', JStr ''required'')]]]
          = Inr (Rejected \<lparr>prototype = NullProto,
              props = [(''undefined'', [JObj [(''type'', JStr ''required'')]])]\<rparr>)"
    using run by (simp add: all_records_def)
  have c: "\<forall>e\<in>set (all_records
             [JArr [JObj [(''type'', JStr ''required'')], JObj [(''field'', JStr ''name'')]]]).
          \<exists>qs. e = JObj qs \<and> (map_of qs ''field'' = None \<or> is_error_record e)"
    by (simp add: all_records_def is_error_record_def)
  from malformed_results_grouping
    [of "JStr ''oops''" False "[JArr [JObj [(''field'', JStr ''name'')]]]" "[JNull]"
        "[(''type'', JStr ''required'')]" "[JArr [JObj [(''type'', JStr ''required'')]]]"
        "Rejected \<lparr>prototype = NullProto,
              props = [(''undefined'', [JObj [(''type'', JStr ''required'')]])]\<rparr>"
        "[JArr [JObj [(''type'', JStr ''required'')], JObj [(''field'', JStr ''name'')]]]"]
    a b c run
  show ?thesis by blast
qed

text \<open>
  C3 as stated fails: a record without a \<^verbatim>\<open>field\<close> is not dropped. The list
  holding only such a record is rejected with an entry \<^verbatim>\<open>undefined\<close>, where the
  empty list is fulfilled.
\<close>

theorem lacking_field_counterexample:
  "gatherErrors False [JArr [JObj [(''type'', JStr ''required'')]]]
     = Inr (Rejected \<lparr>prototype = NullProto,
              props = [(''undefined'', [JObj [(''type'', JStr ''required'')]])]\<rparr>)
   \<and> gatherErrors False [JArr []] = Inr Resolved"
  by (simp add: run_defs)

text \<open>
  C4, as amended. \<^verbatim>\<open>gatherErrors\<close> throws exactly when some element of a list
  among the unit results is \<^verbatim>\<open>undefined\<close> or \<^verbatim>\<open>null\<close>, or has a \<^verbatim>\<open>field\<close> that
  does not convert to a property key; on every other input it returns. A unit
  result that is not a list counts as no errors: it can be left out, and
  alone it gives a fulfilled promise.
\<close>

theorem gatherErrors_tolerance:
  "(gatherErrors r xs = Inl TypeError \<longleftrightarrow> (\<exists>e\<in>set (all_records xs). \<not> tolerated e))
   \<and> ((\<forall>e\<in>set (all_records xs). tolerated e) \<longrightarrow> (\<exists>out. gatherErrors r xs = Inr out))
   \<and> (\<not> is_array u \<longrightarrow>
        gatherErrors r (ys @ u # zs) = gatherErrors r (ys @ zs)
        \<and> gatherErrors r [u] = Inr Resolved)"
proof (intro conjI impI)
  show "gatherErrors r xs = Inl TypeError \<longleftrightarrow> (\<exists>e\<in>set (all_records xs). \<not> tolerated e)"
  proof (cases "\<exists>e\<in>set (all_records xs). record_key e = Inl TypeError")
    case True
    from gatherErrors_throws [OF True, of r] True show ?thesis
      by (simp add: tolerated_iff)
  next
    case False
    then have ok: "\<forall>e\<in>set (all_records xs). record_key e \<noteq> Inl TypeError" by simp
    from gatherErrors_ok [OF ok, of r] have "gatherErrors r xs \<noteq> Inl TypeError"
      by (auto split: if_splits)
    with False show ?thesis by (simp add: tolerated_iff)
  qed
next
  assume "\<forall>e\<in>set (all_records xs). tolerated e"
  then have "\<forall>e\<in>set (all_records xs). record_key e \<noteq> Inl TypeError"
    by (simp add: tolerated_iff)
  from gatherErrors_ok [OF this, of r] show "\<exists>out. gatherErrors r xs = Inr out"
    by (auto split: if_splits)
next
  assume "\<not> is_array u"
  then have "all_records (ys @ u # zs) = all_records (ys @ zs)"
    by (simp add: not_array_no_records all_records_skip)
  then show "gatherErrors r (ys @ u # zs) = gatherErrors r (ys @ zs)"
    by (rule gatherErrors_cong)
next
  assume "\<not> is_array u"
  then have "all_records [u] = all_records []"
    by (simp add: not_array_no_records all_records_def)
  then have "gatherErrors r [u] = gatherErrors r []"
    by (rule gatherErrors_cong)
  then show "gatherErrors r [u] = Inr Resolved"
    by (simp add: gatherErrors_Nil)
qed

theorem gatherErrors_tolerance_witness:
  "(\<exists>out. gatherErrors True
       [JArr [JNum ''5'', JStr ''x'', JObj [(''field'', JArr [])], JArr [],
              JObj [(''field'', JObj [])], JObj []],
        JObj [(''field'', JStr ''name'')], JBool False] = Inr out)
   \<and> gatherErrors True
       [JArr [JNum ''5'', JStr ''x'', JObj [(''field'', JArr [])], JArr [],
              JObj [(''field'', JObj [])], JObj []],
        JObj [(''field'', JStr ''name'')], JBool False] \<noteq> Inl TypeError
   \<and> gatherErrors True ([JArr [JNum ''5'']] @ JObj [(''field'', JStr ''name'')] # [JUndefined])
     = gatherErrors True ([JArr [JNum ''5'']] @ [JUndefined])
   \<and> gatherErrors True [JObj [(''field'', JStr ''name'')]] = Inr Resolved"
proof -
  have a: "\<forall>e\<in>set (all_records
       [JArr [JNum ''5'', JStr ''x'', JObj [(''field'', JArr [])], JArr [],
              JObj [(''field'', JObj [])], JObj []],
        JObj [(''field'', JStr ''name'')], JBool False]). tolerated e"
    by (simp add: all_records_def)
  have b: "\<not> is_array (JObj [(''field'', JStr ''name'')])" by simp
  from gatherErrors_tolerance
    [of True "[JArr [JNum ''5'', JStr ''x'', JObj [(''field'', JArr [])], JArr [],
              JObj [(''field'', JObj [])], JObj []],
        JObj [(''field'', JStr ''name'')], JBool False]"
        "JObj [(''field'', JStr ''name'')]" "[JArr [JNum ''5'']]" "[JUndefined]"]
    a b
  show ?thesis by blast
qed

text \<open>
  C4 as stated fails: a list with a \<^verbatim>\<open>null\<close> or \<^verbatim>\<open>undefined\<close> element makes
  \<^verbatim>\<open>e.field\<close> throw, and a record whose \<^verbatim>\<open>field\<close> is an object with an own
  property \<^verbatim>\<open>toString\<close> makes the conversion to a property key throw.
\<close>

theorem throwing_element_counterexample:
  "gatherErrors False [JArr [JNull]] = Inl TypeError
   \<and> gatherErrors False [JArr [JUndefined]] = Inl TypeError
   \<and> gatherErrors False [JArr [JObj [(''field'', JObj [(''toString'', JNum ''1'')])]]] = Inl TypeError"
  by (simp add: run_defs)

text \<open>
  With the prototype of an object literal instead, the existence check would
  be satisfied by the inherited member and the call of \<^verbatim>\<open>push\<close> would throw.
\<close>

lemma group_record_inherited:
  assumes "k \<in> set object_prototype_names" and "record_key e = Inr k"
  shows "group_record empty_object e = Inl TypeError"
  using assms by (simp add: group_record_def js_get_def empty_object_def)

text \<open>
  C9. A record whose field is the name of a member of \<^verbatim>\<open>Object.prototype\<close> is
  grouped like any other: the accumulator has no prototype, so the lookup
  never finds an inherited member, the record is appended to an own entry of
  that name, the accumulator keeps its null prototype, and at the end the
  entry of such a name is given by the same expression as that of any name
  \<open>j\<close>.
\<close>

theorem prototype_names_grouped_as_own:
  assumes "k \<in> set object_prototype_names"
  shows "js_get (object_create_null :: jsval list js_object) k = Missing
   \<and> (prototype grouped = NullProto \<and> record_key e = Inr k \<longrightarrow>
        js_get grouped k \<noteq> Inherited
        \<and> (\<exists>g1. group_record grouped e = Inr g1 \<and> prototype g1 = NullProto
              \<and> js_get g1 k =
                  Own ((case js_get grouped k of Own arr \<Rightarrow> arr | Inherited \<Rightarrow> [] | Missing \<Rightarrow> [])
                       @ [e])))
   \<and> (grouped_errors r xs = Inr g \<longrightarrow>
        prototype g = NullProto
        \<and> js_get g k =
            (if records_for k (all_records xs) = [] then Missing
             else Own (if r then [first_element (records_for k (all_records xs))]
                       else records_for k (all_records xs)))
        \<and> js_get g j =
            (if records_for j (all_records xs) = [] then Missing
             else Own (if r then [first_element (records_for j (all_records xs))]
                       else records_for j (all_records xs))))"
proof (intro conjI impI)
  show "js_get (object_create_null :: jsval list js_object) k = Missing"
    by (simp add: js_get_def object_create_null_def)
next
  assume a: "prototype grouped = NullProto \<and> record_key e = Inr k"
  then show "js_get grouped k \<noteq> Inherited"
    by (simp add: js_get_def split: option.splits)
next
  assume a: "prototype grouped = NullProto \<and> record_key e = Inr k"
  then have p: "prototype grouped = NullProto" and key: "record_key e = Inr k" by simp_all
  from group_record_null [OF p key] obtain g1 where
    g1: "group_record grouped e = Inr g1" "prototype g1 = NullProto"
      "map_of (props g1) =
        (map_of (props grouped))(k \<mapsto>
           (case map_of (props grouped) k of None \<Rightarrow> [] | Some a \<Rightarrow> a) @ [e])"
    by blast
  have "js_get g1 k =
      Own ((case js_get grouped k of Own arr \<Rightarrow> arr | Inherited \<Rightarrow> [] | Missing \<Rightarrow> []) @ [e])"
    using p g1(2,3) by (simp add: js_get_def split: option.splits)
  with g1(1,2) show "\<exists>g1. group_record grouped e = Inr g1 \<and> prototype g1 = NullProto
              \<and> js_get g1 k =
                  Own ((case js_get grouped k of Own arr \<Rightarrow> arr | Inherited \<Rightarrow> [] | Missing \<Rightarrow> [])
                       @ [e])"
    by blast
next
  assume "grouped_errors r xs = Inr g"
  then have G: "gathered r (all_records xs) g" by (rule grouped_errors_Inr)
  then show "prototype g = NullProto" by (simp add: gathered_def)
  from G show "js_get g k =
            (if records_for k (all_records xs) = [] then Missing
             else Own (if r then [first_element (records_for k (all_records xs))]
                       else records_for k (all_records xs)))"
    by (rule gathered_get)
  from G show "js_get g j =
            (if records_for j (all_records xs) = [] then Missing
             else Own (if r then [first_element (records_for j (all_records xs))]
                       else records_for j (all_records xs)))"
    by (rule gathered_get)
qed

theorem prototype_names_grouped_as_own_witness:
  "''toString'' \<in> set object_prototype_names
   \<and> group_record object_create_null (JObj [(''field'', JStr ''toString'')])
       = Inr \<lparr>prototype = NullProto,
              props = [(''toString'', [JObj [(''field'', JStr ''toString'')]])]\<rparr>
   \<and> grouped_errors False
        [JArr [JObj [(''field'', JStr ''toString'')], JObj [(''field'', JStr ''__proto__'')]]]
       = Inr \<lparr>prototype = NullProto,
              props = [(''toString'', [JObj [(''field'', JStr ''toString'')]]),
                       (''__proto__'', [JObj [(''field'', JStr ''__proto__'')]])]\<rparr>
   \<and> js_get \<lparr>prototype = NullProto,
              props = [(''toString'', [JObj [(''field'', JStr ''toString'')]]),
                       (''__proto__'', [JObj [(''field'', JStr ''__proto__'')]])]\<rparr> ''toString''
       = Own (records_for ''toString'' (all_records
          [JArr [JObj [(''field'', JStr ''toString'')], JObj [(''field'', JStr ''__proto__'')]]]))"
proof -
  have k: "''toString'' \<in> set object_prototype_names"
    by (simp add: object_prototype_names_def)
  have step: "group_record object_create_null (JObj [(''field'', JStr ''toString'')])
       = Inr \<lparr>prototype = NullProto,
              props = [(''toString'', [JObj [(''field'', JStr ''toString'')]])]\<rparr>"
    by (simp add: run_defs)
  have run: "grouped_errors False
        [JArr [JObj [(''field'', JStr ''toString'')], JObj [(''field'', JStr ''__proto__'')]]]
       = Inr \<lparr>prototype = NullProto,
              props = [(''toString'', [JObj [(''field'', JStr ''toString'')]]),
                       (''__proto__'', [JObj [(''field'', JStr ''__proto__'')]])]\<rparr>"
    by (simp add: run_defs)
  have ne: "records_for ''toString'' (all_records
          [JArr [JObj [(''field'', JStr ''toString'')], JObj [(''field'', JStr ''__proto__'')]]]) \<noteq> []"
    by (simp add: run_defs)
  from prototype_names_grouped_as_own [OF k, of object_create_null
      "JObj [(''field'', JStr ''toString'')]" False
      "[JArr [JObj [(''field'', JStr ''toString'')], JObj [(''field'', JStr ''__proto__'')]]]"
      "\<lparr>prototype = NullProto,
              props = [(''toString'', [JObj [(''field'', JStr ''toString'')]]),
                       (''__proto__'', [JObj [(''field'', JStr ''__proto__'')]])]\<rparr>" "''toString''"]
    run ne
  have "js_get \<lparr>prototype = NullProto,
              props = [(''toString'', [JObj [(''field'', JStr ''toString'')]]),
                       (''__proto__'', [JObj [(''field'', JStr ''__proto__'')]])]\<rparr> ''toString''
       = Own (records_for ''toString'' (all_records
          [JArr [JObj [(''field'', JStr ''toString'')], JObj [(''field'', JStr ''__proto__'')]]]))"
    by simp
  with k step run show ?thesis by blast
qed

text \<open>
  C10. For a mapping of the store whose keys are distinct and whose values are
  non-empty arrays, \<^verbatim>\<open>reduceGroupedErrors\<close> returns a new object: every object
  and every array that was in the store is unchanged, the argument among
  them; the result has no prototype and the keys of the argument in the same
  enumeration order; and under each key it holds a new one-element array with
  the head of the argument's array. On the mappings read from the store this
  is the function \<open>reduceGroupedErrors\<close> that \<^verbatim>\<open>gatherErrors\<close> applies.
\<close>

theorem reduceGroupedErrors_frame:
  assumes "refs_valid h errors"
    and "distinct (map fst (props (objects h ! errors)))"
    and "list_all (\<lambda>(k, a). arrays h ! a \<noteq> []) (props (objects h ! errors))"
  shows "\<exists>h'. reduceGroupedErrors_in h errors = Inr (h', length (objects h))
     \<and> take (length (objects h)) (objects h') = objects h
     \<and> take (length (arrays h)) (arrays h') = arrays h
     \<and> mapping_at h' errors = mapping_at h errors
     \<and> reduceGroupedErrors (mapping_at h errors) = Inr (mapping_at h' (length (objects h)))
     \<and> prototype (mapping_at h' (length (objects h))) = NullProto
     \<and> object_keys (mapping_at h' (length (objects h))) = object_keys (mapping_at h errors)
     \<and> (\<forall>k. js_get (mapping_at h' (length (objects h))) k =
            (case js_get (mapping_at h errors) k of
               Own arr \<Rightarrow> Own [hd arr] | Inherited \<Rightarrow> Missing | Missing \<Rightarrow> Missing))"
proof -
  let ?E = "mapping_at h errors"
  from reduceGroupedErrors_in_result [OF assms(1)] obtain h' where
    H: "reduceGroupedErrors_in h errors = Inr (h', length (objects h))
           \<and> take (length (objects h)) (objects h') = objects h
           \<and> take (length (arrays h)) (arrays h') = arrays h
           \<and> mapping_at h' errors = mapping_at h errors
           \<and> reduceGroupedErrors ?E = Inr (mapping_at h' (length (objects h)))" ..
  let ?R = "mapping_at h' (length (objects h))"
  from H have red: "reduceGroupedErrors ?E = Inr ?R" by simp
  have "distinct (map fst (props ?E))"
    using assms(2) by (simp add: keys_mapping_at)
  from reduceGroupedErrors_result [OF this] red have
    p: "prototype ?R = NullProto" and
    ks: "map fst (props ?R) = object_keys ?E" and
    vs: "\<And>k. map_of (props ?R) k = map_option (\<lambda>arr. [first_element arr]) (map_of (props ?E) k)"
    by auto
  have keys: "object_keys ?R = object_keys ?E"
    unfolding object_keys_def [of ?R] ks by (simp add: object_keys_def key_order_idem)
  have nonempty: "arr \<noteq> []" if "map_of (props ?E) k = Some arr" for k arr
  proof -
    from that have "(k, arr) \<in> set (props ?E)" by (rule map_of_SomeD)
    then obtain a where "(k, a) \<in> set (props (objects h ! errors))" "arr = arrays h ! a"
      by (auto simp: mapping_at_def)
    with assms(3) show ?thesis by (auto simp: list_all_iff)
  qed
  have get: "js_get ?R k =
      (case js_get ?E k of
         Own arr \<Rightarrow> Own [hd arr] | Inherited \<Rightarrow> Missing | Missing \<Rightarrow> Missing)" for k
  proof (cases "map_of (props ?E) k")
    case None
    with vs [of k] p show ?thesis
      by (simp add: js_get_def split: proto.splits)
  next
    case (Some arr)
    with nonempty have "first_element arr = hd arr" by (simp add: first_element_hd)
    with Some vs [of k] show ?thesis by (simp add: js_get_def)
  qed
  from H p keys get show ?thesis by blast
qed

theorem reduceGroupedErrors_frame_witness:
  "\<exists>h'. reduceGroupedErrors_in
          \<lparr>objects = [\<lparr>prototype = NullProto, props = [(''b'', 0), (''1'', 1)]\<rparr>],
           arrays = [[JStr ''x'', JStr ''y''], [JStr ''z'']]\<rparr> 0 = Inr (h', 1)
     \<and> take 1 (objects h') = [\<lparr>prototype = NullProto, props = [(''b'', 0), (''1'', 1)]\<rparr>]
     \<and> take 2 (arrays h') = [[JStr ''x'', JStr ''y''], [JStr ''z'']]
     \<and> object_keys (mapping_at h' 1) = [''1'', ''b'']
     \<and> js_get (mapping_at h' 1) ''b'' = Own [JStr ''x'']"
proof -
  let ?h = "\<lparr>objects = [\<lparr>prototype = NullProto, props = [(''b'', 0 :: nat), (''1'', 1)]\<rparr>],
           arrays = [[JStr ''x'', JStr ''y''], [JStr ''z'']]\<rparr>"
  have a: "refs_valid ?h 0" by (simp add: refs_valid_def)
  have b: "distinct (map fst (props (objects ?h ! 0)))" by simp
  have c: "list_all (\<lambda>(k, a). arrays ?h ! a \<noteq> []) (props (objects ?h ! 0))" by simp
  have k: "object_keys (mapping_at ?h 0) = [''1'', ''b'']"
    by (simp add: mapping_at_def run_defs)
  have g: "js_get (mapping_at ?h 0) ''b'' = Own [JStr ''x'', JStr ''y'']"
    by (simp add: mapping_at_def js_get_def)
  from reduceGroupedErrors_frame [OF a b c] obtain h' where
    H: "reduceGroupedErrors_in ?h 0 = Inr (h', length (objects ?h))
     \<and> take (length (objects ?h)) (objects h') = objects ?h
     \<and> take (length (arrays ?h)) (arrays h') = arrays ?h
     \<and> mapping_at h' 0 = mapping_at ?h 0
     \<and> reduceGroupedErrors (mapping_at ?h 0) = Inr (mapping_at h' (length (objects ?h)))
     \<and> prototype (mapping_at h' (length (objects ?h))) = NullProto
     \<and> object_keys (mapping_at h' (length (objects ?h))) = object_keys (mapping_at ?h 0)
     \<and> (\<forall>k. js_get (mapping_at h' (length (objects ?h))) k =
            (case js_get (mapping_at ?h 0) k of
               Own arr \<Rightarrow> Own [hd arr] | Inherited \<Rightarrow> Missing | Missing \<Rightarrow> Missing))" ..
  then have r1: "reduceGroupedErrors_in ?h 0 = Inr (h', length (objects ?h))"
    and r2: "take (length (objects ?h)) (objects h') = objects ?h"
    and r3: "take (length (arrays ?h)) (arrays h') = arrays ?h"
    and r4: "object_keys (mapping_at h' (length (objects ?h))) = object_keys (mapping_at ?h 0)"
    and r5: "js_get (mapping_at h' (length (objects ?h))) ''b'' =
            (case js_get (mapping_at ?h 0) ''b'' of
               Own arr \<Rightarrow> Own [hd arr] | Inherited \<Rightarrow> Missing | Missing \<Rightarrow> Missing)"
    by blast+
  have n1: "length (objects ?h) = 1" and n2: "length (arrays ?h) = 2" by simp_all
  have "reduceGroupedErrors_in ?h 0 = Inr (h', 1)"
    using r1 by (simp only: n1)
  moreover have "take 1 (objects h') = [\<lparr>prototype = NullProto, props = [(''b'', 0), (''1'', 1)]\<rparr>]"
    using r2 by (simp only: n1) simp
  moreover have "take 2 (arrays h') = [[JStr ''x'', JStr ''y''], [JStr ''z'']]"
    using r3 by (simp only: n2) simp
  moreover have "object_keys (mapping_at h' 1) = [''1'', ''b'']"
    using r4 by (simp only: n1 k)
  moreover have "js_get (mapping_at h' 1) ''b'' = Own [JStr ''x'']"
    using r5 by (simp only: n1 g) simp
  ultimately show ?thesis by blast
qed

end
